theory Spec2Isabelle
  imports Main "HOL-Library.Word"
begin

unbundle bit_operations_syntax

section \<open>Platform, constants and memory\<close>

text \<open>
  The file system of \<^verbatim>\<open>cs1550.c\<close> keeps its structures as raw 512-byte blocks and reads
  them through C struct pointers. The model does the same: a buffer is a function from byte
  positions to bytes, and a field of a struct is the little-endian reading of the bytes at
  the field's position. The layout is the one of the platform the program is built for
  (Linux on x86-64: \<^verbatim>\<open>int\<close> has 4 bytes, \<^verbatim>\<open>long\<close>, \<^verbatim>\<open>size_t\<close> and \<^verbatim>\<open>off_t\<close> have 8, the inner
  structs are packed).

  A buffer obtained from \<^verbatim>\<open>malloc(BLOCK_SIZE)\<close> has 512 bytes; the program also indexes it at
  positions from 512 on. C leaves such an access undefined. The model takes the flat-memory
  reading of it: positions from 512 on hold the bytes \<open>slack\<close> that happen to lie behind the
  buffer, a store there changes only the buffer in memory, and only positions below 512
  ever reach the disk. No theorem assumes anything about \<open>slack\<close>.

  Sizes and offsets (\<^verbatim>\<open>size_t\<close>, and the non-negative \<^verbatim>\<open>off_t\<close> the kernel passes) are
  natural numbers, with the wrap-around modulo \<open>2 ^ 64\<close> written out where the program
  subtracts; block numbers (\<^verbatim>\<open>long\<close>) and return values (\<^verbatim>\<open>int\<close>) are integers.
\<close>

type_synonym byte = "8 word"
type_synonym mem = "nat \<Rightarrow> byte"

abbreviation (input) BLOCK_SIZE :: nat where "BLOCK_SIZE \<equiv> 512"
abbreviation (input) DISK_BLOCKS :: int where "DISK_BLOCKS \<equiv> 10240"
abbreviation (input) BIT_MAP_SIZE :: nat where "BIT_MAP_SIZE \<equiv> 1536"
abbreviation (input) MAX_FILENAME :: nat where "MAX_FILENAME \<equiv> 8"
abbreviation (input) MAX_EXTENSION :: nat where "MAX_EXTENSION \<equiv> 3"

text \<open>
  \<^verbatim>\<open>MAX_DIRS_IN_ROOT = (512 - 4) / (9 + 8)\<close>, \<^verbatim>\<open>MAX_FILES_IN_DIR = (512 - 4) / (9 + 4 + 8 + 8)\<close>
  and \<^verbatim>\<open>MAX_ENTRIES_IN_INDEX_BLOCK = 512 / 8\<close>.
\<close>

abbreviation (input) MAX_DIRS_IN_ROOT :: int where "MAX_DIRS_IN_ROOT \<equiv> 29"
abbreviation (input) MAX_FILES_IN_DIR :: int where "MAX_FILES_IN_DIR \<equiv> 17"
abbreviation (input) MAX_ENTRIES_IN_INDEX_BLOCK :: nat where "MAX_ENTRIES_IN_INDEX_BLOCK \<equiv> 64"

text \<open>The values of \<^verbatim>\<open>errno.h\<close> on Linux.\<close>

abbreviation (input) EPERM :: int where "EPERM \<equiv> 1"
abbreviation (input) ENOENT :: int where "ENOENT \<equiv> 2"
abbreviation (input) EEXIST :: int where "EEXIST \<equiv> 17"
abbreviation (input) EISDIR :: int where "EISDIR \<equiv> 21"
abbreviation (input) EFBIG :: int where "EFBIG \<equiv> 27"
abbreviation (input) ENOSPC :: int where "ENOSPC \<equiv> 28"
abbreviation (input) ENAMETOOLONG :: int where "ENAMETOOLONG \<equiv> 36"

subsection \<open>Integers in memory\<close>

definition le_nat :: "byte list \<Rightarrow> nat" where
  "le_nat bs = foldr (\<lambda>b a. unat b + 256 * a) bs 0"

definition nat_le :: "nat \<Rightarrow> nat \<Rightarrow> byte list" where
  "nat_le n v = map (\<lambda>k. of_nat (v div 256 ^ k)) [0..<n]"

definition signed :: "nat \<Rightarrow> nat \<Rightarrow> int" where
  "signed w v = (if v < 2 ^ (w - 1) then int v else int v - 2 ^ w)"

definition load :: "mem \<Rightarrow> nat \<Rightarrow> nat \<Rightarrow> byte list" where
  "load m off n = map m [off..<off + n]"

fun store :: "mem \<Rightarrow> nat \<Rightarrow> byte list \<Rightarrow> mem" where
  "store m off [] = m"
| "store m off (b # bs) = store (m(off := b)) (Suc off) bs"

definition load_int :: "mem \<Rightarrow> nat \<Rightarrow> int" where
  "load_int m off = signed 32 (le_nat (load m off 4))"

definition load_long :: "mem \<Rightarrow> nat \<Rightarrow> int" where
  "load_long m off = signed 64 (le_nat (load m off 8))"

definition load_size :: "mem \<Rightarrow> nat \<Rightarrow> nat" where
  "load_size m off = le_nat (load m off 8)"

definition store_int :: "mem \<Rightarrow> nat \<Rightarrow> int \<Rightarrow> mem" where
  "store_int m off v = store m off (nat_le 4 (nat (v mod 2 ^ 32)))"

definition store_long :: "mem \<Rightarrow> nat \<Rightarrow> int \<Rightarrow> mem" where
  "store_long m off v = store m off (nat_le 8 (nat (v mod 2 ^ 64)))"

definition store_size :: "mem \<Rightarrow> nat \<Rightarrow> nat \<Rightarrow> mem" where
  "store_size m off v = store m off (nat_le 8 v)"

text \<open>The conversion of a \<^verbatim>\<open>size_t\<close> to the \<^verbatim>\<open>int\<close> a handler returns keeps the low 32 bits.\<close>

definition to_int :: "nat \<Rightarrow> int" where
  "to_int v = signed 32 (v mod 2 ^ 32)"

section \<open>The disk image and the bitmap\<close>

text \<open>
  The state of the mounted file system: the image file \<^verbatim>\<open>.disk\<close> by blocks (\<open>disk st n p\<close> is
  byte \<open>p\<close> of block \<open>n\<close>), its length in blocks, the static array \<^verbatim>\<open>bitmap\<close>, and the bytes
  that lie behind a block buffer in memory.
\<close>

record fs =
  disk :: "nat \<Rightarrow> mem"
  nblocks :: nat
  bitmap :: mem
  slack :: mem

text \<open>\<^verbatim>\<open>mask[] = {128, 64, 32, 16, 8, 4, 2, 1}\<close>\<close>

definition mask_tab :: "nat \<Rightarrow> byte" where
  "mask_tab p = [128, 64, 32, 16, 8, 4, 2, 1] ! p"

definition is_bit_set :: "byte \<Rightarrow> nat \<Rightarrow> bool" where
  "is_bit_set data p = (data AND mask_tab p \<noteq> 0)"

text \<open>
  \<^verbatim>\<open>initBitmap\<close>: \<^verbatim>\<open>fread\<close> copies the 1536 bytes at \<^verbatim>\<open>BIT_MAP_LOCATION\<close> (blocks 10237 to
  10239) into \<^verbatim>\<open>bitmap\<close>, as far as the file reaches, then four bits are set.
\<close>

definition initBitmap :: "fs \<Rightarrow> fs" where
  "initBitmap st =
     (let b0 = (\<lambda>i. if i < BIT_MAP_SIZE \<and> 10237 + i div 512 < nblocks st
                      then disk st (10237 + i div 512) (i mod 512) else bitmap st i);
          b1 = b0(0 := b0 0 OR mask_tab 0);
          b2 = b1(BIT_MAP_SIZE - 1 := b1 (BIT_MAP_SIZE - 1) OR mask_tab 5);
          b3 = b2(BIT_MAP_SIZE - 1 := b2 (BIT_MAP_SIZE - 1) OR mask_tab 6);
          b4 = b3(BIT_MAP_SIZE - 1 := b3 (BIT_MAP_SIZE - 1) OR mask_tab 7)
      in st\<lparr>bitmap := b4\<rparr>)"

text \<open>
  \<^verbatim>\<open>set_bit\<close>. The guard is \<^verbatim>\<open>block_num > DISK_BLOCKS\<close>. A negative block number indexes in
  front of the array: the array of the model stays as it is.
\<close>

definition set_bit_bm :: "int \<Rightarrow> fs \<Rightarrow> int \<times> fs" where
  "set_bit_bm block_num st =
     (if block_num > DISK_BLOCKS then (- 1, st)
      else if block_num < 0 then (0, st)
      else let byte_num = nat block_num div 8;
               bit_num = nat block_num mod 8
           in (0, st\<lparr>bitmap := (bitmap st)(byte_num := bitmap st byte_num OR mask_tab bit_num)\<rparr>))"

text \<open>The two loops of \<^verbatim>\<open>find_free_block\<close>: the bits of one byte, and the bytes of the map.\<close>

function scan_bits :: "byte \<Rightarrow> nat \<Rightarrow> nat option" where
  "scan_bits b bit_num =
     (if bit_num < 8
      then (if \<not> is_bit_set b bit_num then Some bit_num else scan_bits b (Suc bit_num))
      else None)"
  by pat_completeness auto
termination
  by (relation "measure (\<lambda>(b, k). 8 - k)") auto

declare scan_bits.simps [simp del]

function scan_bytes :: "mem \<Rightarrow> nat \<Rightarrow> (nat \<times> nat) option" where
  "scan_bytes bm byte_num =
     (if byte_num < BIT_MAP_SIZE
      then (case scan_bits (bm byte_num) 0 of
              Some bit_num \<Rightarrow> Some (byte_num, bit_num)
            | None \<Rightarrow> scan_bytes bm (Suc byte_num))
      else None)"
  by pat_completeness auto
termination
  by (relation "measure (\<lambda>(bm, k). BIT_MAP_SIZE - k)") auto

declare scan_bytes.simps [simp del]

definition find_free_block :: "fs \<Rightarrow> int \<times> fs" where
  "find_free_block st =
     (let st1 = (if \<not> is_bit_set (bitmap st (BIT_MAP_SIZE - 1)) 7 then initBitmap st else st)
      in case scan_bytes (bitmap st1) 0 of
           None \<Rightarrow> (- ENOSPC, st1)
         | Some (byte_num, bit_num) \<Rightarrow> (8 * int byte_num + int bit_num, st1))"

text \<open>
  \<^verbatim>\<open>write_disk_block\<close>: refused when \<^verbatim>\<open>block_num > DISK_BLOCKS\<close>; \<^verbatim>\<open>fseek\<close> fails on a negative
  position; \<^verbatim>\<open>fwrite\<close> stores 512 bytes at the position, and a write at or behind the end of
  the file makes the file longer (the gap reads as zeros).
\<close>

definition block_bytes :: "mem \<Rightarrow> mem" where
  "block_bytes block = (\<lambda>p. if p < BLOCK_SIZE then block p else 0)"

definition write_disk_block :: "int \<Rightarrow> mem \<Rightarrow> fs \<Rightarrow> int \<times> fs" where
  "write_disk_block block_num block st =
     (if block_num > DISK_BLOCKS then (- 1, st)
      else if block_num < 0 then (- 1, st)
      else (0, st\<lparr>disk := (\<lambda>n. if n = nat block_num then block_bytes block
                                else if nblocks st \<le> n \<and> n < nat block_num then (\<lambda>p. 0)
                                else disk st n),
                  nblocks := max (nblocks st) (nat block_num + 1)\<rparr>))"

text \<open>
  \<^verbatim>\<open>get_block\<close>: \<^verbatim>\<open>NULL\<close> (here \<open>None\<close>) when \<^verbatim>\<open>block_num > DISK_BLOCKS\<close>, when \<^verbatim>\<open>fseek\<close> fails,
  or when \<^verbatim>\<open>fread\<close> finds no whole block at the position; else a fresh buffer with the
  block in its first 512 bytes.
\<close>

definition buffer_of :: "fs \<Rightarrow> nat \<Rightarrow> mem" where
  "buffer_of st n = (\<lambda>p. if p < BLOCK_SIZE then disk st n p else slack st p)"

definition get_block :: "fs \<Rightarrow> int \<Rightarrow> mem option" where
  "get_block st block_num =
     (if block_num > DISK_BLOCKS then None
      else if block_num < 0 then None
      else if nblocks st \<le> nat block_num then None
      else Some (buffer_of st (nat block_num)))"

text \<open>\<^verbatim>\<open>calloc(sizeof(disk_block), 1)\<close>: 512 zero bytes.\<close>

definition calloc_block :: "fs \<Rightarrow> mem" where
  "calloc_block st = (\<lambda>p. if p < BLOCK_SIZE then 0 else slack st p)"

text \<open>\<^verbatim>\<open>cs1550_init\<close> opens the image and calls \<^verbatim>\<open>initBitmap\<close>.\<close>

definition cs1550_init :: "fs \<Rightarrow> fs" where
  "cs1550_init st = initBitmap st"

text \<open>
  An image as \<^verbatim>\<open>dd\<close> makes it (10240 zero blocks) before the first mount, with an arbitrary
  fixed choice of what lies behind buffers.
\<close>

definition fresh_image :: fs where
  "fresh_image = \<lparr>disk = (\<lambda>n p. 0), nblocks = 10240, bitmap = (\<lambda>i. 0), slack = (\<lambda>p. 170)\<rparr>"

definition bit_clear :: "mem \<Rightarrow> nat \<Rightarrow> bool" where
  "bit_clear bm n = (\<not> is_bit_set (bm (n div 8)) (n mod 8))"

section \<open>Paths and directory blocks\<close>

text \<open>
  \<^verbatim>\<open>sscanf(path, "/%[^/]/%[^.].%s", dir, fname, fext)\<close>: the number of fields assigned (or
  \<^verbatim>\<open>EOF\<close>, which is \<open>- 1\<close>, when the input ends before the first one) and the three strings;
  a field that is not assigned keeps the empty string the handler initialised it with. The
  model keeps a component of any length; the handlers reject an over-long one right after.
\<close>

definition isspace :: "char \<Rightarrow> bool" where
  "isspace c = (c \<in> set [CHR '' '', CHR 0x09, CHR 0x0A, CHR 0x0B, CHR 0x0C, CHR 0x0D])"

definition sscanf_path :: "string \<Rightarrow> int \<times> string \<times> string \<times> string" where
  "sscanf_path path =
     (case takeWhile (\<lambda>c. c \<noteq> CHR 0x00) path of
        [] \<Rightarrow> (- 1, [], [], [])
      | c # r \<Rightarrow>
          if c \<noteq> CHR ''/'' then (0, [], [], [])
          else let dir = takeWhile (\<lambda>c. c \<noteq> CHR ''/'') r;
                   r1 = dropWhile (\<lambda>c. c \<noteq> CHR ''/'') r
               in if dir = [] then (if r = [] then - 1 else 0, [], [], [])
                  else (case r1 of
                          [] \<Rightarrow> (1, dir, [], [])
                        | c1 # r2 \<Rightarrow>
                            let fname = takeWhile (\<lambda>c. c \<noteq> CHR ''.'') r2;
                                r3 = dropWhile (\<lambda>c. c \<noteq> CHR ''.'') r2
                            in if fname = [] then (1, dir, [], [])
                               else (case r3 of
                                       [] \<Rightarrow> (2, dir, fname, [])
                                     | c3 # r4 \<Rightarrow>
                                         let fext = takeWhile (\<lambda>c. \<not> isspace c)
                                                      (dropWhile isspace r4)
                                         in if fext = [] then (2, dir, fname, [])
                                            else (3, dir, fname, fext))))"

definition cstr :: "string \<Rightarrow> byte list" where
  "cstr s = map of_char s"

text \<open>
  \<^verbatim>\<open>streq(a, b)\<close> is \<^verbatim>\<open>strcmp(a, b) == 0\<close> and \<^verbatim>\<open>strneq(a, b, l)\<close> is
  \<^verbatim>\<open>strncmp(a, b, l) == 0\<close>, for a string \<open>a\<close> of the handler (it holds no zero byte) and
  the bytes \<open>b\<close> of a buffer from position \<open>off\<close> on. \<^verbatim>\<open>strncpy(dst, src, n)\<close> writes \<open>n\<close>
  bytes: the string, then zeros.
\<close>

definition streq :: "byte list \<Rightarrow> mem \<Rightarrow> nat \<Rightarrow> bool" where
  "streq a m off = (load m off (length a + 1) = a @ [0])"

definition strneq :: "byte list \<Rightarrow> mem \<Rightarrow> nat \<Rightarrow> nat \<Rightarrow> bool" where
  "strneq a m off l = (load m off (min l (length a + 1)) = take l (a @ [0]))"

definition strncpy :: "byte list \<Rightarrow> nat \<Rightarrow> byte list" where
  "strncpy src n = take n (src @ replicate n 0)"

text \<open>The search loop \<^verbatim>\<open>for(i = 0; i < n; i++) if(P(i)) break;\<close>: the value of \<open>i\<close> after it.\<close>

function scan_index :: "(nat \<Rightarrow> bool) \<Rightarrow> int \<Rightarrow> nat \<Rightarrow> nat" where
  "scan_index P n i = (if int i < n then (if P i then i else scan_index P n (Suc i)) else i)"
  by pat_completeness auto
termination
  by (relation "measure (\<lambda>(P, n, i). nat n - i)") auto

declare scan_index.simps [simp del]

text \<open>
  Positions of the fields. \<^verbatim>\<open>root_directory\<close>: \<^verbatim>\<open>nDirectories\<close> at 0, then 17 bytes for each of
  \<^verbatim>\<open>directories[i]\<close>: \<^verbatim>\<open>dname[9]\<close>, \<^verbatim>\<open>nStartBlock\<close>. \<^verbatim>\<open>directory_entry\<close>: \<^verbatim>\<open>nFiles\<close> at 0, then 29
  bytes for each of \<^verbatim>\<open>files[i]\<close>: \<^verbatim>\<open>fname[9]\<close>, \<^verbatim>\<open>fext[4]\<close>, \<^verbatim>\<open>fsize\<close>, \<^verbatim>\<open>nIndexBlock\<close>.
  \<^verbatim>\<open>index_block\<close>: \<^verbatim>\<open>entries[i]\<close> at \<open>8 * i\<close>.
\<close>

definition dname_at :: "nat \<Rightarrow> nat" where "dname_at i = 4 + 17 * i"
definition nStartBlock_at :: "nat \<Rightarrow> nat" where "nStartBlock_at i = 4 + 17 * i + 9"
definition fname_at :: "nat \<Rightarrow> nat" where "fname_at i = 4 + 29 * i"
definition fext_at :: "nat \<Rightarrow> nat" where "fext_at i = 4 + 29 * i + 9"
definition fsize_at :: "nat \<Rightarrow> nat" where "fsize_at i = 4 + 29 * i + 13"
definition nIndexBlock_at :: "nat \<Rightarrow> nat" where "nIndexBlock_at i = 4 + 29 * i + 21"
definition entries_at :: "nat \<Rightarrow> nat" where "entries_at i = 8 * i"

text \<open>The test both file loops make on \<^verbatim>\<open>files[i]\<close>.\<close>

definition file_matches :: "string \<Rightarrow> string \<Rightarrow> mem \<Rightarrow> nat \<Rightarrow> bool" where
  "file_matches fname fext sub_dir i =
     (strneq (cstr fname) sub_dir (fname_at i) MAX_FILENAME \<and>
      strneq (cstr fext) sub_dir (fext_at i) MAX_EXTENSION)"

text \<open>
  The three searches of the handlers, each the value of \<open>i\<close> after its loop: for the
  directory with \<^verbatim>\<open>strneq\<close> (\<^verbatim>\<open>mkdir\<close>, \<^verbatim>\<open>write\<close>), for the directory with \<^verbatim>\<open>streq\<close>
  (\<^verbatim>\<open>mknod\<close>, \<^verbatim>\<open>read\<close>), and for the file.
\<close>

definition dir_index_n :: "mem \<Rightarrow> string \<Rightarrow> nat" where
  "dir_index_n root dir =
     scan_index (\<lambda>i. strneq (cstr dir) root (dname_at i) MAX_FILENAME) (load_int root 0) 0"

definition dir_index :: "mem \<Rightarrow> string \<Rightarrow> nat" where
  "dir_index root dir =
     scan_index (\<lambda>i. streq (cstr dir) root (dname_at i)) (load_int root 0) 0"

definition file_index :: "mem \<Rightarrow> string \<Rightarrow> string \<Rightarrow> nat" where
  "file_index sub_dir fname fext =
     scan_index (file_matches fname fext sub_dir) (load_int sub_dir 0) 0"

text \<open>
  What a handler does: it returns an \<^verbatim>\<open>int\<close>, or it dereferences a \<^verbatim>\<open>NULL\<close> pointer that
  \<^verbatim>\<open>get_block\<close> gave it.
\<close>

datatype outcome = Ret int | Crash

text \<open>The \<^verbatim>\<open>int\<close> that \<^verbatim>\<open>mknod\<close> keeps of a \<^verbatim>\<open>long\<close> block number.\<close>

definition long_to_int :: "int \<Rightarrow> int" where
  "long_to_int v = signed 32 (nat (v mod 2 ^ 32))"

section \<open>mkdir and mknod\<close>

text \<open>
  A count \<^verbatim>\<open>nDirectories\<close> or \<^verbatim>\<open>nFiles\<close> is read as the \<^verbatim>\<open>int\<close> it is; as an array index it
  is taken as a natural number (an image with a negative count is outside the model).
\<close>

definition cs1550_mkdir :: "string \<Rightarrow> fs \<Rightarrow> outcome \<times> fs" where
  "cs1550_mkdir path st =
     (case sscanf_path path of (tokens, dir, fname, fext) \<Rightarrow>
      if tokens > 1 then (Ret (- EPERM), st)
      else if length dir > MAX_FILENAME then (Ret (- ENAMETOOLONG), st)
      else case get_block st 0 of
        None \<Rightarrow> (Ret (- ENOENT), st)
      | Some root \<Rightarrow>
          let nDirectories = load_int root 0 in
          if nDirectories = MAX_DIRS_IN_ROOT then (Ret (- ENOSPC), st)
          else if int (dir_index_n root dir) < nDirectories
          then (Ret (- EEXIST), st)
          else
            let (free_block_index, st1) = find_free_block st;
                k = nat nDirectories;
                root1 = store root (dname_at k) (strncpy (cstr dir) (MAX_FILENAME + 1));
                root2 = store_long root1 (nStartBlock_at k) free_block_index;
                root3 = store_int root2 0 (load_int root2 0 + 1);
                (r1, st2) = set_bit_bm free_block_index st1
            in if r1 < 0 then (Ret (- 1), st2)
               else let (r2, st3) = write_disk_block 0 root3 st2
                    in if r2 < 0 then (Ret (- 1), st3) else (Ret 0, st3))"

definition cs1550_mknod :: "string \<Rightarrow> fs \<Rightarrow> outcome \<times> fs" where
  "cs1550_mknod path st =
     (case sscanf_path path of (tokens, dir, fname, fext) \<Rightarrow>
      if tokens < 3 then (Ret (- EPERM), st)
      else if length dir > MAX_FILENAME \<or> length fname > MAX_FILENAME
                \<or> length fext > MAX_EXTENSION
      then (Ret (- ENAMETOOLONG), st)
      else case get_block st 0 of
        None \<Rightarrow> (Ret (- ENOENT), st)
      | Some root \<Rightarrow>
          let i = dir_index root dir;
              sub_nStartBlock = long_to_int (load_long root (nStartBlock_at i))
          in case get_block st sub_nStartBlock of
            None \<Rightarrow> (Ret (- ENOENT), st)
          | Some sub_dir \<Rightarrow>
              let nFiles = load_int sub_dir 0 in
              if int (file_index sub_dir fname fext) < nFiles
              then (Ret (- EEXIST), st)
              else if nFiles = MAX_FILES_IN_DIR then (Ret (- ENOSPC), st)
              else
                let (index_block_num, st1) = find_free_block st;
                    (r1, st2) = set_bit_bm index_block_num st1;
                    (data_block_num, st3) = find_free_block st2;
                    (r2, st4) = set_bit_bm data_block_num st3
                in if index_block_num = 0 \<or> data_block_num = 0 then (Ret (- ENOSPC), st4)
                   else
                     let k = nat nFiles;
                         d1 = store_long sub_dir (nIndexBlock_at k) index_block_num;
                         d2 = store_size d1 (fsize_at k) 0;
                         d3 = store d2 (fname_at k) (strncpy (cstr fname) (MAX_FILENAME + 1));
                         d4 = store d3 (fext_at k) (strncpy (cstr fext) (MAX_FILENAME + 1));
                         d5 = store_int d4 0 (load_int d4 0 + 1);
                         i_block = store_long (calloc_block st4) (entries_at 0) data_block_num;
                         d_block = calloc_block st4;
                         (r3, st5) = write_disk_block sub_nStartBlock d5 st4;
                         (r4, st6) = write_disk_block index_block_num i_block st5;
                         (r5, st7) = write_disk_block data_block_num d_block st6
                     in (Ret 0, st7))"

section \<open>read and write\<close>

text \<open>
  The loop that finds the block a transfer starts in, shared by \<^verbatim>\<open>cs1550_read\<close> and
  \<^verbatim>\<open>cs1550_write\<close>: it gives \<^verbatim>\<open>cur_block_addr\<close>, \<^verbatim>\<open>cur_block_index\<close>, \<^verbatim>\<open>cur_pos\<close> and what is
  left of \<^verbatim>\<open>offset\<close>. The three variables keep their initial 0 when the loop ends without
  \<^verbatim>\<open>break\<close>.
\<close>

function locate :: "mem \<Rightarrow> nat \<Rightarrow> nat \<Rightarrow> int \<times> nat \<times> nat \<times> nat" where
  "locate inode offset i =
     (if load_long inode (entries_at i) \<noteq> 0 \<and> i < MAX_ENTRIES_IN_INDEX_BLOCK
      then (if offset \<le> BLOCK_SIZE then (load_long inode (entries_at i), i, offset, offset)
            else locate inode (offset - BLOCK_SIZE) (Suc i))
      else (0, 0, 0, offset))"
  by pat_completeness auto
termination
  by (relation "measure (\<lambda>(inode, offset, i). MAX_ENTRIES_IN_INDEX_BLOCK - i)") auto

declare locate.simps [simp del]

text \<open>The variables of the copy loop of \<^verbatim>\<open>cs1550_write\<close>.\<close>

record wloop =
  w_fs :: fs
  w_inode :: mem
  w_file_block :: "mem option"
  w_cur_block_addr :: int
  w_cur_block_index :: nat
  w_cur_pos :: nat

text \<open>
  The copy loop of \<^verbatim>\<open>cs1550_write\<close>, from \<open>i\<close> on. The result is \<open>None\<close> when
  \<^verbatim>\<open>file_block\<close> is \<^verbatim>\<open>NULL\<close> at a store. In the branch that loads the next block,
  \<^verbatim>\<open>cur_block_addr\<close> keeps its value, as in the source.
\<close>

function write_loop :: "mem \<Rightarrow> nat \<Rightarrow> nat \<Rightarrow> wloop \<Rightarrow> wloop option" where
  "write_loop buf sz i w =
     (if i < sz then
        (case w_file_block w of
           None \<Rightarrow> None
         | Some fb \<Rightarrow>
             let fb1 = fb(w_cur_pos w := buf i) in
             if w_cur_pos w \<noteq> 0 \<and> w_cur_pos w mod BLOCK_SIZE = 0 then
               let (r, st1) = write_disk_block (w_cur_block_addr w) fb1 (w_fs w);
                   idx = Suc (w_cur_block_index w)
               in if load_long (w_inode w) (entries_at idx) \<noteq> 0
                  then write_loop buf sz (Suc i)
                         (w\<lparr>w_fs := st1,
                            w_file_block := get_block st1 (load_long (w_inode w) (entries_at idx)),
                            w_cur_block_index := idx, w_cur_pos := 0\<rparr>)
                  else let (free_block, st2) = find_free_block st1;
                           (r2, st3) = set_bit_bm free_block st2
                       in write_loop buf sz (Suc i)
                            (w\<lparr>w_fs := st3,
                               w_inode := store_long (w_inode w) (entries_at idx) free_block,
                               w_file_block := Some (calloc_block st3),
                               w_cur_block_addr := free_block,
                               w_cur_block_index := idx, w_cur_pos := 0\<rparr>)
             else write_loop buf sz (Suc i)
                    (w\<lparr>w_file_block := Some fb1, w_cur_pos := Suc (w_cur_pos w)\<rparr>))
      else Some w)"
  by pat_completeness auto
termination
  by (relation "measure (\<lambda>(buf, sz, i, w). sz - i)") auto

declare write_loop.simps [simp del]

text \<open>
  \<^verbatim>\<open>cs1550_write(path, buf, size, offset)\<close>, with \<open>sz\<close> for \<^verbatim>\<open>size\<close>. \<^verbatim>\<open>MAX(file_old_size, size + offset)\<close> compares as
  \<^verbatim>\<open>unsigned long\<close>; \<^verbatim>\<open>offset > file_old_size\<close> compares as \<^verbatim>\<open>long\<close>. \<^verbatim>\<open>end_pos\<close>,
  \<^verbatim>\<open>blocks_needed\<close> and \<^verbatim>\<open>remaining_data\<close> are only printed and are left out.
\<close>

definition cs1550_write :: "string \<Rightarrow> mem \<Rightarrow> nat \<Rightarrow> nat \<Rightarrow> fs \<Rightarrow> outcome \<times> fs" where
  "cs1550_write path buf sz offset st =
     (if sz = 0 then (Ret (- EPERM), st)
      else case sscanf_path path of (tokens, dir, fname, fext) \<Rightarrow>
      if tokens < 3 then (Ret (- ENOENT), st)
      else if length dir > MAX_FILENAME \<or> length fname > MAX_FILENAME
                \<or> length fext > MAX_EXTENSION
      then (Ret (- ENAMETOOLONG), st)
      else case get_block st 0 of
        None \<Rightarrow> (Crash, st)
      | Some root \<Rightarrow>
          let i = dir_index_n root dir;
              sub_nStartBlock = load_long root (nStartBlock_at i)
          in case get_block st sub_nStartBlock of
            None \<Rightarrow> (Ret (- ENOENT), st)
          | Some sub_dir0 \<Rightarrow>
              let nFiles = load_int sub_dir0 0;
                  j = file_index sub_dir0 fname fext;
                  found = (int j < nFiles);
                  file_inode_addr = (if found then load_long sub_dir0 (nIndexBlock_at j) else 0);
                  file_old_size = (if found then signed 64 (load_size sub_dir0 (fsize_at j)) else 0);
                  sub_dir = (if found
                             then store_size sub_dir0 (fsize_at j)
                                    (max (load_size sub_dir0 (fsize_at j))
                                         ((sz + offset) mod 2 ^ 64))
                             else sub_dir0)
              in if int offset > file_old_size then (Ret (- EFBIG), st)
                 else if file_inode_addr = 0 then (Ret (- ENOENT), st)
                 else case get_block st file_inode_addr of
                   None \<Rightarrow> (Crash, st)
                 | Some inode \<Rightarrow>
                     (case locate inode offset 0 of
                        (cur_block_addr, cur_block_index, cur_pos, offset1) \<Rightarrow>
                        (case write_loop buf sz 0
                                \<lparr>w_fs = st, w_inode = inode,
                                 w_file_block = get_block st cur_block_addr,
                                 w_cur_block_addr = cur_block_addr,
                                 w_cur_block_index = cur_block_index,
                                 w_cur_pos = cur_pos\<rparr> of
                           None \<Rightarrow> (Crash, st)
                         | Some w \<Rightarrow>
                             let (r1, st1) = write_disk_block sub_nStartBlock sub_dir (w_fs w);
                                 (r2, st2) = write_disk_block file_inode_addr (w_inode w) st1
                             in (case w_file_block w of
                                   None \<Rightarrow> (Crash, st2)
                                 | Some fb \<Rightarrow>
                                     let (r3, st3) = write_disk_block (w_cur_block_addr w) fb st2
                                     in (Ret (to_int sz), st3)))))"

text \<open>
  The copy loop of \<^verbatim>\<open>cs1550_read\<close>, from \<open>i\<close> on: the number of bytes it has stored in the
  caller's buffer when it ends, and the buffer; or \<open>None\<close> when \<^verbatim>\<open>file_block\<close> is \<^verbatim>\<open>NULL\<close>
  where the loop reads it. The test for the end of a block uses \<^verbatim>\<open>BLOCK_SIZE + 1\<close>, and
  \<^verbatim>\<open>cur_pos\<close> is not reset, as in the source.
\<close>

function read_loop ::
  "fs \<Rightarrow> mem \<Rightarrow> nat \<Rightarrow> nat \<Rightarrow> mem option \<Rightarrow> nat \<Rightarrow> nat \<Rightarrow> mem \<Rightarrow> (nat \<times> mem) option" where
  "read_loop st inode sz i file_block cur_block_index cur_pos buf =
     (if i < sz then
        (case file_block of
           None \<Rightarrow> None
         | Some fb \<Rightarrow>
             if fb cur_pos \<noteq> 0 then
               let buf1 = buf(i := fb cur_pos);
                   pos1 = Suc cur_pos
               in if pos1 \<noteq> 0 \<and> pos1 mod (BLOCK_SIZE + 1) = 0 then
                    let idx = Suc cur_block_index in
                    if load_long inode (entries_at idx) \<noteq> 0
                    then read_loop st inode sz (Suc i)
                           (get_block st (load_long inode (entries_at idx))) idx pos1 buf1
                    else Some (Suc i, buf1)
                  else read_loop st inode sz (Suc i) file_block cur_block_index pos1 buf1
             else Some (i, buf))
      else Some (i, buf))"
  by pat_completeness auto
termination
  by (relation "measure (\<lambda>(st, inode, sz, i, fb, idx, pos, buf). sz - i)") auto

declare read_loop.simps [simp del]

text \<open>
  The size \<^verbatim>\<open>cs1550_read\<close> goes on with: \<^verbatim>\<open>if(size + offset > file_size) size = file_size - offset\<close>,
  in \<^verbatim>\<open>unsigned long\<close> arithmetic, with the offset the locating loop has left.
\<close>

definition clamp_size :: "nat \<Rightarrow> nat \<Rightarrow> nat \<Rightarrow> nat" where
  "clamp_size sz offset file_size =
     (if (sz + offset) mod 2 ^ 64 > file_size
      then (file_size + 2 ^ 64 - offset) mod 2 ^ 64 else sz)"

definition cs1550_read :: "string \<Rightarrow> mem \<Rightarrow> nat \<Rightarrow> nat \<Rightarrow> fs \<Rightarrow> outcome \<times> mem" where
  "cs1550_read path buf sz offset st =
     (if sz = 0 then (Ret 0, buf)
      else case sscanf_path path of (tokens, dir, fname, fext) \<Rightarrow>
      if tokens < 3 then (Ret (- EISDIR), buf)
      else if length dir > MAX_FILENAME \<or> length fname > MAX_FILENAME
                \<or> length fext > MAX_EXTENSION
      then (Ret (- ENAMETOOLONG), buf)
      else case get_block st 0 of
        None \<Rightarrow> (Crash, buf)
      | Some root \<Rightarrow>
          let i = dir_index root dir;
              sub_nStartBlock = load_long root (nStartBlock_at i)
          in case get_block st sub_nStartBlock of
            None \<Rightarrow> (Ret (- ENOENT), buf)
          | Some sub_dir \<Rightarrow>
              let nFiles = load_int sub_dir 0;
                  j = file_index sub_dir fname fext;
                  found = (int j < nFiles);
                  file_inode_addr = (if found then load_long sub_dir (nIndexBlock_at j) else 0);
                  file_size = (if found then load_size sub_dir (fsize_at j) else 0)
              in if file_inode_addr = 0 then (Ret (- ENOENT), buf)
                 else case get_block st file_inode_addr of
                   None \<Rightarrow> (Crash, buf)
                 | Some inode \<Rightarrow>
                     (case locate inode offset 0 of
                        (cur_block_addr, cur_block_index, cur_pos, offset1) \<Rightarrow>
                        let sz1 = clamp_size sz offset1 file_size in
                        (case read_loop st inode sz1 0 (get_block st cur_block_addr)
                                cur_block_index cur_pos buf of
                           None \<Rightarrow> (Crash, buf)
                         | Some (n, buf1) \<Rightarrow> (Ret (to_int sz1), buf1))))"

section \<open>Notions the statements use\<close>

text \<open>
  \<open>block_ok st n\<close>: \<^verbatim>\<open>get_block(n)\<close> returns a buffer. \<open>reload st b\<close>: the buffer \<^verbatim>\<open>get_block\<close>
  returns for a block whose bytes on disk are those of \<open>b\<close>.
\<close>

definition block_ok :: "fs \<Rightarrow> int \<Rightarrow> bool" where
  "block_ok st n = (0 \<le> n \<and> n \<le> DISK_BLOCKS \<and> nat n < nblocks st)"

definition reload :: "fs \<Rightarrow> mem \<Rightarrow> mem" where
  "reload st b = (\<lambda>p. if p < BLOCK_SIZE then b p else slack st p)"

text \<open>
  \<open>file_at st dir fname fext s j a f\<close>: in the image of \<open>st\<close> the lookups of the handlers, for the
  parsed components of a path, end at entry \<open>j\<close> of the directory block \<open>s\<close>, and that entry has
  the index block \<open>a\<close> and the size \<open>f\<close>; all blocks on the way can be read.
\<close>

definition file_at ::
  "fs \<Rightarrow> string \<Rightarrow> string \<Rightarrow> string \<Rightarrow> int \<Rightarrow> nat \<Rightarrow> int \<Rightarrow> nat \<Rightarrow> bool" where
  "file_at st dir fname fext s j a f =
     (length dir \<le> MAX_FILENAME \<and> length fname \<le> MAX_FILENAME \<and> length fext \<le> MAX_EXTENSION \<and>
      block_ok st 0 \<and>
      load_long (buffer_of st 0) (nStartBlock_at (dir_index_n (buffer_of st 0) dir)) = s \<and>
      load_long (buffer_of st 0) (nStartBlock_at (dir_index (buffer_of st 0) dir)) = s \<and>
      block_ok st s \<and>
      file_index (buffer_of st (nat s)) fname fext = j \<and>
      int j < load_int (buffer_of st (nat s)) 0 \<and> int j < MAX_FILES_IN_DIR \<and>
      load_long (buffer_of st (nat s)) (nIndexBlock_at j) = a \<and> a \<noteq> 0 \<and> block_ok st a \<and>
      load_size (buffer_of st (nat s)) (fsize_at j) = f)"

text \<open>
  The states of a small session: the fresh image mounted, then \<^verbatim>\<open>mkdir /alpha\<close>, then
  \<^verbatim>\<open>mknod /alpha/hi.txt\<close>; and the blocks these calls write.
\<close>

definition st_init :: fs where "st_init = cs1550_init fresh_image"

definition st_dir :: fs where "st_dir = snd (cs1550_mkdir ''/alpha'' st_init)"

definition st_file :: fs where "st_file = snd (cs1550_mknod ''/alpha/hi.txt'' st_dir)"

definition root_alpha :: mem where
  "root_alpha = store_int (store_long (store (buffer_of st_init 0) 4 (strncpy (cstr ''alpha'') 9)) 13 1) 0 1"

definition dir_hi :: mem where
  "dir_hi = store_int (store (store (store_size (store_long (buffer_of st_dir (Suc 0)) 25 2) 17 0)
                4 (strncpy (cstr ''hi'') 9)) 13 (strncpy (cstr ''txt'') 9)) 0 1"

definition inode_hi :: mem where
  "inode_hi = store_long (calloc_block st_dir) 0 3"

text \<open>Two buffers a caller writes from: the text \<^verbatim>\<open>Hello\<close>, and three bytes with a zero byte
  in the middle.\<close>

definition hello :: mem where
  "hello = store (\<lambda>p. 0) 0 (cstr ''Hello'')"

definition a_nul_b :: mem where
  "a_nul_b = store (\<lambda>p. 0) 0 [65, 0, 66]"

text \<open>The state after \<^verbatim>\<open>write("Hello", 5, 0)\<close> to the new file.\<close>

definition st_hello :: fs where
  "st_hello = snd (cs1550_write ''/alpha/hi.txt'' hello 5 0 st_file)"

text \<open>
  An image on which the size of the file and its index block disagree: \<open>st_file\<close> with the
  size of \<^verbatim>\<open>hi.txt\<close> set to 1000, and the data block 3, the only one the index block lists, full
  of the letter \<^verbatim>\<open>A\<close>. (The index block is written back as it is.)
\<close>

definition st_short :: fs where
  "st_short = st_file\<lparr>disk := (disk st_file)
     (nat 1 := block_bytes (store_size (buffer_of st_file (nat 1)) (fsize_at 0) 1000),
      nat 2 := block_bytes (buffer_of st_file (nat 2)),
      nat 3 := block_bytes (\<lambda>p. if p < BLOCK_SIZE then 65 else slack st_file p))\<rparr>"

text \<open>
  The state after a write of 512 letters \<^verbatim>\<open>A\<close> at offset 0 to the new file, and the state after
  the write of one letter \<^verbatim>\<open>B\<close> at offset 512 that follows.
\<close>

definition st_full :: fs where
  "st_full = snd (cs1550_write ''/alpha/hi.txt'' (\<lambda>p. 65) 512 0 st_file)"

definition st_full_b :: fs where
  "st_full_b = snd (cs1550_write ''/alpha/hi.txt'' (\<lambda>p. 66) 1 512 st_full)"

section \<open>The bitmap allocator\<close>

lemma scan_bits_Some:
  "scan_bits b k = Some j \<Longrightarrow>
     k \<le> j \<and> j < 8 \<and> \<not> is_bit_set b j \<and> (\<forall>m. k \<le> m \<and> m < j \<longrightarrow> is_bit_set b m)"
proof (induction b k rule: scan_bits.induct)
  case (1 b k)
  note eq = scan_bits.simps [of b k]
  show ?case
  proof (cases "k < 8 \<and> is_bit_set b k")
    case True
    with "1.prems" eq have "scan_bits b (Suc k) = Some j" by simp
    with "1.IH" True
    have IH: "Suc k \<le> j \<and> j < 8 \<and> \<not> is_bit_set b j \<and> (\<forall>m. Suc k \<le> m \<and> m < j \<longrightarrow> is_bit_set b m)"
      by simp
    have "is_bit_set b m" if "k \<le> m" "m < j" for m
      using that IH True by (cases "m = k") auto
    with IH show ?thesis by auto
  next
    case False
    with "1.prems" eq show ?thesis by (auto split: if_splits)
  qed
qed

lemma scan_bits_None:
  "scan_bits b k = None \<Longrightarrow> k \<le> m \<Longrightarrow> m < 8 \<Longrightarrow> is_bit_set b m"
proof (induction b k rule: scan_bits.induct)
  case (1 b k)
  note eq = scan_bits.simps [of b k]
  from "1.prems" have k: "k < 8" by simp
  with "1.prems" eq have s: "is_bit_set b k" "scan_bits b (Suc k) = None"
    by (auto split: if_splits)
  show ?case
  proof (cases "m = k")
    case True
    with s show ?thesis by simp
  next
    case False
    with "1.prems" have "Suc k \<le> m" by simp
    with "1.IH" k s "1.prems" show ?thesis by simp
  qed
qed

lemma scan_bytes_Some:
  "scan_bytes bm k = Some (byte_num, bit_num) \<Longrightarrow>
     k \<le> byte_num \<and> byte_num < BIT_MAP_SIZE \<and> scan_bits (bm byte_num) 0 = Some bit_num \<and>
     (\<forall>j. k \<le> j \<and> j < byte_num \<longrightarrow> scan_bits (bm j) 0 = None)"
proof (induction bm k rule: scan_bytes.induct)
  case (1 bm k)
  note eq = scan_bytes.simps [of bm k]
  from "1.prems" eq have k: "k < BIT_MAP_SIZE" by (simp split: if_splits)
  show ?case
  proof (cases "scan_bits (bm k) 0")
    case None
    with "1.prems" k eq have "scan_bytes bm (Suc k) = Some (byte_num, bit_num)" by simp
    with "1.IH" k None
    have IH: "Suc k \<le> byte_num \<and> byte_num < BIT_MAP_SIZE \<and>
        scan_bits (bm byte_num) 0 = Some bit_num \<and>
        (\<forall>j. Suc k \<le> j \<and> j < byte_num \<longrightarrow> scan_bits (bm j) 0 = None)"
      by simp
    have "scan_bits (bm j) 0 = None" if "k \<le> j" "j < byte_num" for j
      using that IH None by (cases "j = k") auto
    with IH show ?thesis by auto
  next
    case (Some a)
    with "1.prems" k eq show ?thesis by auto
  qed
qed

lemma scan_bytes_None:
  "scan_bytes bm k = None \<Longrightarrow> k \<le> j \<Longrightarrow> j < BIT_MAP_SIZE \<Longrightarrow> scan_bits (bm j) 0 = None"
proof (induction bm k rule: scan_bytes.induct)
  case (1 bm k)
  note eq = scan_bytes.simps [of bm k]
  from "1.prems" have k: "k < BIT_MAP_SIZE" by simp
  with "1.prems" eq have s: "scan_bits (bm k) 0 = None" "scan_bytes bm (Suc k) = None"
    by (auto split: option.splits)
  show ?case
  proof (cases "j = k")
    case True
    with s show ?thesis by simp
  next
    case False
    with "1.prems" have "Suc k \<le> j" by simp
    with "1.IH" k s "1.prems" show ?thesis by simp
  qed
qed

lemma or7_and1: "(x OR 7) AND (1::byte) \<noteq> 0"
proof -
  have "bit ((x OR 7) AND (1::byte)) 0" by (simp add: bit_simps)
  then show ?thesis by auto
qed

lemma initBitmap_marked: "is_bit_set (bitmap (initBitmap st) (BIT_MAP_SIZE - 1)) 7"
  by (simp add: initBitmap_def is_bit_set_def mask_tab_def Let_def word_bw_assocs or7_and1)

lemma scan_bytes_first:
  assumes "scan_bytes bm 0 = Some (q, r)"
  shows "8 * q + r < 12288" and "bit_clear bm (8 * q + r)"
    and "\<And>m. m < 8 * q + r \<Longrightarrow> \<not> bit_clear bm m"
proof -
  from scan_bytes_Some [OF assms]
  have q: "q < 1536" and sb: "scan_bits (bm q) 0 = Some r"
    and pre: "\<And>j. j < q \<Longrightarrow> scan_bits (bm j) 0 = None" by auto
  from scan_bits_Some [OF sb]
  have r: "r < 8" "\<not> is_bit_set (bm q) r" and below: "\<And>k. k < r \<Longrightarrow> is_bit_set (bm q) k"
    by auto
  show "8 * q + r < 12288" using q r by simp
  show "bit_clear bm (8 * q + r)" using r by (simp add: bit_clear_def)
  show "\<not> bit_clear bm m" if "m < 8 * q + r" for m
  proof (cases "m div 8 < q")
    case True
    from scan_bits_None [OF pre [OF True], of "m mod 8"]
    show ?thesis by (simp add: bit_clear_def)
  next
    case False
    from that r have "m < (q + 1) * 8" by simp
    then have "m div 8 < q + 1" by (rule less_mult_imp_div_less)
    with False have "m div 8 = q" by simp
    moreover from this that div_mult_mod_eq [of m 8] have "m mod 8 < r" by linarith
    ultimately show ?thesis using below by (simp add: bit_clear_def)
  qed
qed

lemma scan_bytes_full:
  assumes "scan_bytes bm 0 = None" and "n < 12288"
  shows "\<not> bit_clear bm n"
proof -
  from assms(2) have "n div 8 < 1536" by simp
  from scan_bytes_None [OF assms(1) _ this] have "scan_bits (bm (n div 8)) 0 = None" by simp
  from scan_bits_None [OF this, of "n mod 8"] show ?thesis by (simp add: bit_clear_def)
qed

lemma find_free_block_initialised:
  "is_bit_set (bitmap st (BIT_MAP_SIZE - 1)) 7 \<Longrightarrow> snd (find_free_block st) = st"
  by (simp add: find_free_block_def split: option.splits prod.splits)

lemma find_free_block_marks:
  "is_bit_set (bitmap (snd (find_free_block st)) (BIT_MAP_SIZE - 1)) 7"
  using initBitmap_marked [of st]
  by (auto simp: find_free_block_def Let_def split: option.splits prod.splits)

lemma find_free_block_eq:
  assumes "is_bit_set (bitmap st (BIT_MAP_SIZE - 1)) 7"
    and "n < 12288" and "bit_clear (bitmap st) n" and "\<And>m. m < n \<Longrightarrow> \<not> bit_clear (bitmap st) m"
  shows "find_free_block st = (int n, st)"
proof (cases "scan_bytes (bitmap st) 0")
  case None
  from scan_bytes_full [OF None assms(2)] assms(3) show ?thesis by simp
next
  case (Some a)
  obtain q r where a: "a = (q, r)" by (cases a)
  note f = scan_bytes_first [OF Some [unfolded a]]
  have "\<not> 8 * q + r < n" using assms(4) f(2) by blast
  moreover have "\<not> n < 8 * q + r" using assms(3) f(3) by blast
  ultimately have "8 * q + r = n" by simp
  then have "8 * int q + int r = int n" by (metis of_nat_add of_nat_mult of_nat_numeral)
  with Some a assms(1) show ?thesis by (simp add: find_free_block_def)
qed

section \<open>Blocks and buffers\<close>

lemma get_block_eq: "get_block st n = (if block_ok st n then Some (buffer_of st (nat n)) else None)"
  by (auto simp: get_block_def block_ok_def)

lemma write_disk_block_ok:
  assumes "block_ok st n"
  shows "write_disk_block n b st = (0, st\<lparr>disk := (disk st)(nat n := block_bytes b)\<rparr>)"
proof -
  have "(\<lambda>m. if m = nat n then block_bytes b
             else if nblocks st \<le> m \<and> m < nat n then (\<lambda>p. 0) else disk st m)
        = (disk st)(nat n := block_bytes b)"
    using assms by (auto simp: fun_eq_iff block_ok_def)
  moreover have "max (nblocks st) (nat n + 1) = nblocks st"
    using assms by (auto simp: block_ok_def)
  ultimately show ?thesis
    using assms by (simp add: write_disk_block_def block_ok_def)
qed

lemma buffer_of_disk_upd:
  "buffer_of (st\<lparr>disk := (disk st)(k := block_bytes b)\<rparr>) m
     = (if m = k then reload st b else buffer_of st m)"
  by (auto simp: buffer_of_def reload_def block_bytes_def fun_eq_iff)

lemma block_ok_disk_upd [simp]: "block_ok (st\<lparr>disk := d\<rparr>) n = block_ok st n"
  by (simp add: block_ok_def)

lemma block_ok_bitmap_upd [simp]: "block_ok (st\<lparr>bitmap := d\<rparr>) n = block_ok st n"
  by (simp add: block_ok_def)

lemma buffer_of_bitmap_upd [simp]: "buffer_of (st\<lparr>bitmap := d\<rparr>) n = buffer_of st n"
  by (simp add: buffer_of_def cong: if_cong)

lemma reload_bitmap_upd [simp]: "reload (st\<lparr>bitmap := d\<rparr>) b = reload st b"
  by (simp add: reload_def cong: if_cong)

lemma reload_disk_upd [simp]: "reload (st\<lparr>disk := d\<rparr>) b = reload st b"
  by (simp add: reload_def cong: if_cong)

lemma reload_buffer_of [simp]: "reload st (buffer_of st k) = buffer_of st k"
  by (auto simp: reload_def buffer_of_def)

lemma load_reload: "off + n \<le> BLOCK_SIZE \<Longrightarrow> load (reload st b) off n = load b off n"
  by (simp add: load_def reload_def)

section \<open>A small session, evaluated\<close>

declare store.simps [simp del]

lemma store_apply:
  "store m off bs p = (if off \<le> p \<and> p < off + length bs then bs ! (p - off) else m p)"
proof (induction bs arbitrary: m off)
  case Nil
  show ?case by (auto simp: store.simps)
next
  case (Cons b bs)
  have "store (m(off := b)) (Suc off) bs p
          = (if Suc off \<le> p \<and> p < Suc off + length bs then bs ! (p - Suc off)
             else (m(off := b)) p)"
    by (rule Cons.IH)
  moreover have "(b # bs) ! (p - off) = bs ! (p - Suc off)" if "Suc off \<le> p"
    using that by (simp add: nth_Cons' Suc_le_eq)
  ultimately show ?case
    by (cases "p = off") (auto simp: store.simps)
qed

lemma length_nat_le [simp]: "length (nat_le n v) = n"
  by (simp add: nat_le_def)

lemma nth_nat_le: "k < n \<Longrightarrow> nat_le n v ! k = of_nat (v div 256 ^ k)"
  by (simp add: nat_le_def)

lemma length_strncpy [simp]: "length (strncpy src n) = n"
  by (simp add: strncpy_def)

lemma nth_strncpy: "k < n \<Longrightarrow> strncpy src n ! k = (if k < length src then src ! k else 0)"
  by (simp add: strncpy_def nth_append)

lemmas eval_mem = load_def load_int_def load_long_def load_size_def le_nat_def signed_def
  store_int_def store_long_def store_size_def store_apply nth_nat_le nth_strncpy upt_conv_Cons cstr_def
  streq_def strneq_def dname_at_def nStartBlock_at_def fname_at_def fext_at_def fsize_at_def
  nIndexBlock_at_def entries_at_def file_matches_def long_to_int_def
  buffer_of_def reload_def block_bytes_def calloc_block_def

lemma st_init_fields [simp]:
  "nblocks st_init = 10240" "slack st_init p = 170" "disk st_init n p = 0"
  "bitmap st_init i = (if i = 0 then 128 else if i = 1535 then 7 else 0)"
  by (simp_all add: st_init_def cs1550_init_def initBitmap_def fresh_image_def Let_def mask_tab_def)

lemma sscanf_alpha: "sscanf_path ''/alpha'' = (1, ''alpha'', [], [])"
  by (simp add: sscanf_path_def isspace_def)

lemma sscanf_hi: "sscanf_path ''/alpha/hi.txt'' = (3, ''alpha'', ''hi'', ''txt'')"
  by (simp add: sscanf_path_def isspace_def)

lemma block_ok_init [simp]: "block_ok st_init n = (0 \<le> n \<and> n < 10240)"
  by (auto simp: block_ok_def)

lemma ffb_init: "find_free_block st_init = (1, st_init)"
proof -
  have "find_free_block st_init = (int 1, st_init)"
  proof (rule find_free_block_eq)
    fix m :: nat assume "m < 1"
    then show "\<not> bit_clear (bitmap st_init) m"
      by (simp add: bit_clear_def is_bit_set_def mask_tab_def)
  qed (simp_all add: bit_clear_def is_bit_set_def mask_tab_def)
  then show ?thesis by simp
qed

lemma mkdir_alpha:
  "cs1550_mkdir ''/alpha'' st_init =
     (Ret 0, st_init\<lparr>bitmap := (bitmap st_init)(0 := 192),
                     disk := (disk st_init)(0 := block_bytes root_alpha)\<rparr>)"
proof -
  have g: "get_block st_init 0 = Some (buffer_of st_init 0)"
    by (simp add: get_block_eq)
  have n0: "load_int (buffer_of st_init 0) 0 = 0"
    by (simp add: eval_mem)
  have sc: "scan_index P 0 0 = 0" for P
    by (subst scan_index.simps) simp
  have sb: "set_bit_bm 1 st_init = (0, st_init\<lparr>bitmap := (bitmap st_init)(0 := 192)\<rparr>)"
    by (simp add: set_bit_bm_def mask_tab_def)
  have n1: "load_int (store_long (store (buffer_of st_init 0) 4 (strncpy (cstr ''alpha'') 9)) 13 1) 0 = 0"
    by (simp add: eval_mem)
  have w: "write_disk_block 0 root_alpha (st_init\<lparr>bitmap := (bitmap st_init)(0 := 192)\<rparr>)
        = (0, st_init\<lparr>bitmap := (bitmap st_init)(0 := 192),
                     disk := (disk st_init)(0 := block_bytes root_alpha)\<rparr>)"
    by (subst write_disk_block_ok) simp_all
  show ?thesis
    by (simp add: cs1550_mkdir_def sscanf_alpha g n0 dir_index_n_def sc ffb_init sb n1
        dname_at_def nStartBlock_at_def root_alpha_def [symmetric] w)
qed

lemma st_dir_eq:
  "st_dir = st_init\<lparr>bitmap := (bitmap st_init)(0 := 192),
                     disk := (disk st_init)(0 := block_bytes root_alpha)\<rparr>"
  by (simp add: st_dir_def mkdir_alpha)

lemma st_dir_fields [simp]:
  "nblocks st_dir = 10240" "slack st_dir p = 170"
  "disk st_dir n = (if n = 0 then block_bytes root_alpha else (\<lambda>p. 0))"
  "bitmap st_dir i = (if i = 0 then 192 else if i = 1535 then 7 else 0)"
  by (auto simp add: st_dir_eq fun_eq_iff)

lemma block_ok_dir [simp]: "block_ok st_dir n = (0 \<le> n \<and> n < 10240)"
  by (auto simp: block_ok_def)

lemma scan_index_0: "scan_index P 0 0 = 0"
  by (subst scan_index.simps) simp

lemma scan_index_hit: "0 < n \<Longrightarrow> P 0 \<Longrightarrow> scan_index P n 0 = 0"
  by (subst scan_index.simps) simp

lemma ffb_dir: "find_free_block st_dir = (2, st_dir)"
proof -
  have "find_free_block st_dir = (int 2, st_dir)"
  proof (rule find_free_block_eq)
    fix m :: nat assume "m < 2"
    then have "m = 0 \<or> m = 1" by auto
    then show "\<not> bit_clear (bitmap st_dir) m"
      by (auto simp add: bit_clear_def is_bit_set_def mask_tab_def)
  qed (simp_all add: bit_clear_def is_bit_set_def mask_tab_def)
  then show ?thesis by simp
qed

lemma ffb_dir2:
  "find_free_block (st_dir\<lparr>bitmap := (bitmap st_dir)(0 := 224)\<rparr>)
     = (3, st_dir\<lparr>bitmap := (bitmap st_dir)(0 := 224)\<rparr>)"
proof -
  have "find_free_block (st_dir\<lparr>bitmap := (bitmap st_dir)(0 := 224)\<rparr>)
     = (int 3, st_dir\<lparr>bitmap := (bitmap st_dir)(0 := 224)\<rparr>)"
  proof (rule find_free_block_eq)
    fix m :: nat assume "m < 3"
    then have "m = 0 \<or> m = 1 \<or> m = 2" by auto
    then show "\<not> bit_clear (bitmap (st_dir\<lparr>bitmap := (bitmap st_dir)(0 := 224)\<rparr>)) m"
      by (auto simp add: bit_clear_def is_bit_set_def mask_tab_def)
  qed (simp_all add: bit_clear_def is_bit_set_def mask_tab_def)
  then show ?thesis by simp
qed

lemma mknod_hi:
  "cs1550_mknod ''/alpha/hi.txt'' st_dir =
     (Ret 0, st_dir\<lparr>bitmap := (bitmap st_dir)(0 := 240),
                    disk := (disk st_dir)(1 := block_bytes dir_hi, 2 := block_bytes inode_hi,
                                          3 := block_bytes (calloc_block st_dir))\<rparr>)"
proof -
  have g0: "get_block st_dir 0 = Some (buffer_of st_dir 0)"
    by (simp add: get_block_eq)
  have n0: "load_int (buffer_of st_dir 0) 0 = 1"
    by (simp add: eval_mem root_alpha_def)
  have sc: "dir_index (buffer_of st_dir 0) ''alpha'' = 0"
    unfolding dir_index_def n0 by (rule scan_index_hit) (simp_all add: eval_mem root_alpha_def)
  have s: "long_to_int (load_long (buffer_of st_dir 0) (nStartBlock_at 0)) = 1"
    by (simp add: eval_mem root_alpha_def)
  have g1: "get_block st_dir 1 = Some (buffer_of st_dir (Suc 0))"
    by (simp add: get_block_eq)
  have n1: "load_int (buffer_of st_dir (Suc 0)) 0 = 0"
    by (simp add: eval_mem)
  have fi: "file_index (buffer_of st_dir (Suc 0)) ''hi'' ''txt'' = 0"
    by (simp add: file_index_def n1 scan_index_0)
  have sb1: "set_bit_bm 2 st_dir = (0, st_dir\<lparr>bitmap := (bitmap st_dir)(0 := 224)\<rparr>)"
    by (simp add: set_bit_bm_def mask_tab_def)
  have sb2: "set_bit_bm 3 (st_dir\<lparr>bitmap := (bitmap st_dir)(0 := 224)\<rparr>)
               = (0, st_dir\<lparr>bitmap := (bitmap st_dir)(0 := 240)\<rparr>)"
    by (simp add: set_bit_bm_def mask_tab_def)
  have n2: "load_int (store (store (store_size (store_long (buffer_of st_dir (Suc 0)) 25 2) 17 0)
                4 (strncpy (cstr ''hi'') 9)) 13 (strncpy (cstr ''txt'') 9)) 0 = 0"
    by (simp add: eval_mem)
  have cb [simp]: "calloc_block (st_dir\<lparr>bitmap := b\<rparr>) = calloc_block st_dir" for b
    by (simp add: calloc_block_def cong: if_cong)
  show ?thesis
    apply (simp add: cs1550_mknod_def sscanf_hi g0 n0 sc s g1 n1 fi ffb_dir sb1 ffb_dir2 sb2 Let_def)
    apply (simp add: fname_at_def fext_at_def fsize_at_def nIndexBlock_at_def entries_at_def n2
        dir_hi_def [symmetric] inode_hi_def [symmetric] write_disk_block_ok)
    done
qed

section \<open>Loads, stores and the loops\<close>

lemma load_store_other:
  "off + n \<le> q \<or> q + length bs \<le> off \<Longrightarrow> load (store m q bs) off n = load m off n"
  by (auto simp: load_def store_apply)

lemma load_store_same: "load (store m q bs) q (length bs) = bs"
  by (rule nth_equalityI) (simp_all add: load_def store_apply)

lemma le_nat_Cons: "le_nat (b # bs) = unat b + 256 * le_nat bs"
  by (simp add: le_nat_def)

lemma nat_le_Suc: "nat_le (Suc n) v = of_nat v # nat_le n (v div 256)"
proof -
  have "map (\<lambda>k. (of_nat (v div 256 ^ k) :: byte)) [0..<Suc n]
      = of_nat v # map (\<lambda>k. of_nat (v div 256 ^ Suc k)) [0..<n]"
    by (simp add: upt_conv_Cons map_Suc_upt [symmetric] del: upt_Suc)
  moreover have "v div 256 ^ Suc k = (v div 256) div 256 ^ k" for k
    by (simp add: div_mult2_eq)
  ultimately show ?thesis by (simp add: nat_le_def)
qed

lemma le_nat_nat_le: "le_nat (nat_le n v) = v mod 256 ^ n"
proof (induction n arbitrary: v)
  case 0
  show ?case by (simp add: nat_le_def le_nat_def)
next
  case (Suc n)
  have "unat (of_nat v :: byte) = v mod 256" by (simp add: unat_of_nat)
  then show ?case
    by (simp add: nat_le_Suc le_nat_Cons Suc.IH mod_mult2_eq)
qed

lemma load_size_store_size: "v < 2 ^ 64 \<Longrightarrow> load_size (store_size m q v) q = v"
proof -
  assume v: "v < 2 ^ 64"
  have "load (store m q (nat_le 8 v)) q 8 = nat_le 8 v"
    using load_store_same [of m q "nat_le 8 v"] by simp
  with v show ?thesis by (simp add: load_size_def store_size_def le_nat_nat_le)
qed

lemma load_store_size_other:
  "off + n \<le> q \<or> q + 8 \<le> off \<Longrightarrow> load (store_size m q v) off n = load m off n"
  by (simp add: store_size_def load_store_other)

lemma load_store_long_other:
  "off + n \<le> q \<or> q + 8 \<le> off \<Longrightarrow> load (store_long m q v) off n = load m off n"
  by (simp add: store_long_def load_store_other)

lemma locate_found:
  "locate inode off i = (d, idx, pos, off1) \<Longrightarrow> d \<noteq> 0 \<Longrightarrow>
     pos = off1 \<and> pos \<le> BLOCK_SIZE \<and> off1 \<le> off \<and> d = load_long inode (entries_at idx) \<and>
     idx < MAX_ENTRIES_IN_INDEX_BLOCK \<and> i \<le> idx \<and> off = off1 + BLOCK_SIZE * (idx - i)"
proof (induction inode off i rule: locate.induct)
  case (1 inode off i)
  note eq = locate.simps [of inode off i]
  show ?case
  proof (cases "load_long inode (entries_at i) \<noteq> 0 \<and> i < MAX_ENTRIES_IN_INDEX_BLOCK")
    case False
    with eq "1.prems" show ?thesis by auto
  next
    case True
    show ?thesis
    proof (cases "off \<le> BLOCK_SIZE")
      case le: True
      with True eq "1.prems" show ?thesis by auto
    next
      case gt: False
      with True eq "1.prems" have "locate inode (off - BLOCK_SIZE) (Suc i) = (d, idx, pos, off1)"
        by simp
      from "1.IH" [OF True gt this "1.prems"(2)] gt show ?thesis by auto
    qed
  qed
qed

lemma locate_not_found:
  "locate inode off i = (d, idx, pos, off1) \<Longrightarrow> d = 0 \<Longrightarrow> idx = 0 \<and> pos = 0 \<and> off1 \<le> off"
proof (induction inode off i rule: locate.induct)
  case (1 inode off i)
  note eq = locate.simps [of inode off i]
  show ?case
  proof (cases "load_long inode (entries_at i) \<noteq> 0 \<and> i < MAX_ENTRIES_IN_INDEX_BLOCK")
    case False
    with eq "1.prems" show ?thesis by auto
  next
    case True
    show ?thesis
    proof (cases "off \<le> BLOCK_SIZE")
      case le: True
      with True eq "1.prems" show ?thesis by auto
    next
      case gt: False
      with True eq "1.prems" have "locate inode (off - BLOCK_SIZE) (Suc i) = (d, idx, pos, off1)"
        by simp
      from "1.IH" [OF True gt this "1.prems"(2)] gt show ?thesis by auto
    qed
  qed
qed

lemma write_loop_in_block:
  "w_file_block w = Some fb \<Longrightarrow> w_cur_pos w + (sz - i) \<le> BLOCK_SIZE \<Longrightarrow> i \<le> sz \<Longrightarrow>
   write_loop buf sz i w =
     Some (w\<lparr>w_file_block :=
                Some (\<lambda>p. if w_cur_pos w \<le> p \<and> p < w_cur_pos w + (sz - i)
                          then buf (i + (p - w_cur_pos w)) else fb p),
              w_cur_pos := w_cur_pos w + (sz - i)\<rparr>)"
proof (induction "sz - i" arbitrary: i w fb)
  case 0
  then have "(\<lambda>p. if w_cur_pos w \<le> p \<and> p < w_cur_pos w + (sz - i)
                  then buf (i + (p - w_cur_pos w)) else fb p) = fb"
    by (auto simp: fun_eq_iff)
  then show ?case using 0 by (subst write_loop.simps) simp
next
  case (Suc k)
  let ?pos = "w_cur_pos w"
  let ?w1 = "w\<lparr>w_file_block := Some (fb(?pos := buf i)), w_cur_pos := Suc ?pos\<rparr>"
  from Suc have lt: "i < sz" by simp
  with Suc.prems have pos: "?pos < BLOCK_SIZE" by simp
  then have m: "?pos mod BLOCK_SIZE = ?pos" "\<not> (0 < ?pos \<and> ?pos = 0)" by auto
  have step: "write_loop buf sz i w = write_loop buf sz (Suc i) ?w1"
    by (subst write_loop.simps) (simp add: lt Suc.prems(1) m Let_def)
  have ih: "write_loop buf sz (Suc i) ?w1 =
       Some (?w1\<lparr>w_file_block :=
                Some (\<lambda>p. if Suc ?pos \<le> p \<and> p < Suc ?pos + (sz - Suc i)
                          then buf (Suc i + (p - Suc ?pos)) else (fb(?pos := buf i)) p),
              w_cur_pos := Suc ?pos + (sz - Suc i)\<rparr>)"
    using Suc.hyps(1) [of "Suc i" ?w1 "fb(?pos := buf i)"] Suc.hyps(2) Suc.prems lt
    by (simp cong: if_cong)
  have fn: "(\<lambda>p. if Suc ?pos \<le> p \<and> p < Suc ?pos + (sz - Suc i)
                          then buf (Suc i + (p - Suc ?pos)) else (fb(?pos := buf i)) p)
        = (\<lambda>p. if ?pos \<le> p \<and> p < ?pos + (sz - i) then buf (i + (p - ?pos)) else fb p)"
    using lt by (auto simp: fun_eq_iff Suc_diff_Suc)
  have ar: "Suc ?pos + (sz - Suc i) = ?pos + (sz - i)" using lt by simp
  show ?case using lt by (simp only: step ih fn) simp
qed

lemma read_loop_copy:
  "\<forall>k < sz - i. fb (pos + k) \<noteq> 0 \<Longrightarrow> pos + (sz - i) \<le> BLOCK_SIZE \<Longrightarrow> i \<le> sz \<Longrightarrow>
   read_loop st inode sz i (Some fb) idx pos buf =
     Some (sz, \<lambda>p. if i \<le> p \<and> p < sz then fb (pos + (p - i)) else buf p)"
proof (induction "sz - i" arbitrary: i pos buf)
  case 0
  then have "(\<lambda>p. if i \<le> p \<and> p < sz then fb (pos + (p - i)) else buf p) = buf"
    by (auto simp: fun_eq_iff)
  moreover from 0 have "i = sz" by simp
  ultimately show ?case by (subst read_loop.simps) simp
next
  case (Suc k)
  from Suc have lt: "i < sz" by simp
  with Suc.prems have nz: "fb pos \<noteq> 0" by (metis add.right_neutral zero_less_diff)
  from lt Suc.prems have pos: "pos < BLOCK_SIZE" by simp
  then have m: "Suc pos mod 513 = Suc pos" by simp
  have step: "read_loop st inode sz i (Some fb) idx pos buf
      = read_loop st inode sz (Suc i) (Some fb) idx (Suc pos) (buf(i := fb pos))"
    by (subst read_loop.simps) (simp add: lt nz m Let_def del: mod_Suc)
  have "\<forall>k < sz - Suc i. fb (Suc pos + k) \<noteq> 0"
  proof (intro allI impI)
    fix k assume "k < sz - Suc i"
    then have "Suc k < sz - i" by simp
    with Suc.prems(1) have "fb (pos + Suc k) \<noteq> 0" by blast
    then show "fb (Suc pos + k) \<noteq> 0" by simp
  qed
  then have ih: "read_loop st inode sz (Suc i) (Some fb) idx (Suc pos) (buf(i := fb pos))
     = Some (sz, \<lambda>p. if Suc i \<le> p \<and> p < sz then fb (Suc pos + (p - Suc i))
                     else (buf(i := fb pos)) p)"
    using Suc.hyps(1) [of "Suc i" "Suc pos" "buf(i := fb pos)"] Suc.hyps(2) Suc.prems lt
    by simp
  have fn: "(\<lambda>p. if Suc i \<le> p \<and> p < sz then fb (Suc pos + (p - Suc i))
                     else (buf(i := fb pos)) p)
     = (\<lambda>p. if i \<le> p \<and> p < sz then fb (pos + (p - i)) else buf p)"
    using lt by (auto simp: fun_eq_iff Suc_diff_Suc)
  show ?case by (simp only: step ih fn)
qed

section \<open>A write inside one block, and the read after it\<close>

lemma to_int_small: "n < 2 ^ 31 \<Longrightarrow> to_int n = int n"
  by (simp add: to_int_def signed_def)

lemma signed_64_small: "f < 2 ^ 63 \<Longrightarrow> signed 64 f = int f"
  by (simp add: signed_def)

lemma write_in_block:
  assumes parse: "sscanf_path path = (3, dir, fname, fext)"
    and fl: "file_at st dir fname fext s j a f"
    and start: "locate (buffer_of st (nat a)) offset 0 = (d, idx, pos, off1)"
    and d: "block_ok st d"
    and n: "0 < n" "pos + n \<le> BLOCK_SIZE"
    and off: "offset \<le> f" "f < 2 ^ 63"
  shows "cs1550_write path b n offset st =
     (Ret (int n),
      st\<lparr>disk := (disk st)
         (nat s := block_bytes (store_size (buffer_of st (nat s)) (fsize_at j) (max f (n + offset))),
          nat a := block_bytes (buffer_of st (nat a)),
          nat d := block_bytes (\<lambda>p. if pos \<le> p \<and> p < pos + n then b (p - pos)
                                     else buffer_of st (nat d) p))\<rparr>)"
proof -
  note fa = fl [unfolded file_at_def]
  from fa have len: "\<not> (8 < length dir \<or> 8 < length fname \<or> 3 < length fext)" by auto
  from fa have g0: "get_block st 0 = Some (buffer_of st 0)" by (simp add: get_block_eq)
  from fa have s: "load_long (buffer_of st 0) (nStartBlock_at (dir_index_n (buffer_of st 0) dir)) = s"
    by simp
  from fa have gs: "get_block st s = Some (buffer_of st (nat s))" by (simp add: get_block_eq)
  from fa have j: "file_index (buffer_of st (nat s)) fname fext = j"
    "int j < load_int (buffer_of st (nat s)) 0" by simp_all
  from fa have a: "load_long (buffer_of st (nat s)) (nIndexBlock_at j) = a" "a \<noteq> 0" by simp_all
  from fa have f: "load_size (buffer_of st (nat s)) (fsize_at j) = f" by simp
  from fa have ga: "get_block st a = Some (buffer_of st (nat a))" by (simp add: get_block_eq)
  from d have gd: "get_block st d = Some (buffer_of st (nat d))" by (simp add: get_block_eq)
  from n off have m: "(n + offset) mod 18446744073709551616 = n + offset" by simp
  from off have le: "\<not> int offset > signed 64 f" by (simp add: signed_64_small)
  from n have ti: "to_int n = int n" by (simp add: to_int_small)
  let ?w0 = "\<lparr>w_fs = st, w_inode = buffer_of st (nat a),
       w_file_block = Some (buffer_of st (nat d)), w_cur_block_addr = d,
       w_cur_block_index = idx, w_cur_pos = pos\<rparr>"
  have wl: "write_loop b n 0 ?w0 =
     Some (?w0\<lparr>w_file_block :=
                Some (\<lambda>p. if pos \<le> p \<and> p < pos + n then b (p - pos)
                          else buffer_of st (nat d) p),
              w_cur_pos := pos + n\<rparr>)"
    using write_loop_in_block [of ?w0 "buffer_of st (nat d)" n 0 b] n by (simp cong: if_cong)
  from fa have oks: "block_ok st s" "block_ok st a" by simp_all
  show ?thesis
    using n(1)
    by (simp add: cs1550_write_def parse len g0 s gs j a f ga gd m le ti start wl Let_def
        write_disk_block_ok oks d)
qed

lemma read_resolved:
  assumes parse: "sscanf_path path = (3, dir, fname, fext)"
    and fl: "file_at st dir fname fext s j a f"
    and sz: "0 < sz"
  shows "cs1550_read path buf sz offset st =
     (case locate (buffer_of st (nat a)) offset 0 of
        (cur_block_addr, cur_block_index, cur_pos, offset1) \<Rightarrow>
          (case read_loop st (buffer_of st (nat a)) (clamp_size sz offset1 f) 0
                  (get_block st cur_block_addr) cur_block_index cur_pos buf of
             None \<Rightarrow> (Crash, buf)
           | Some (k, buf1) \<Rightarrow> (Ret (to_int (clamp_size sz offset1 f)), buf1)))"
proof -
  note fa = fl [unfolded file_at_def]
  from fa have len: "\<not> (8 < length dir \<or> 8 < length fname \<or> 3 < length fext)" by auto
  from fa have g0: "get_block st 0 = Some (buffer_of st 0)" by (simp add: get_block_eq)
  from fa have s: "load_long (buffer_of st 0) (nStartBlock_at (dir_index (buffer_of st 0) dir)) = s"
    by simp
  from fa have gs: "get_block st s = Some (buffer_of st (nat s))" by (simp add: get_block_eq)
  from fa have j: "file_index (buffer_of st (nat s)) fname fext = j"
    "int j < load_int (buffer_of st (nat s)) 0" by simp_all
  from fa have a: "load_long (buffer_of st (nat s)) (nIndexBlock_at j) = a" "a \<noteq> 0" by simp_all
  from fa have f: "load_size (buffer_of st (nat s)) (fsize_at j) = f" by simp
  from fa have ga: "get_block st a = Some (buffer_of st (nat a))" by (simp add: get_block_eq)
  show ?thesis
    using sz by (simp add: cs1550_read_def parse len g0 s gs j a f ga Let_def)
qed

lemma buffer_of_disk_upd2:
  "buffer_of (st\<lparr>disk := dk(k := block_bytes b)\<rparr>) m
     = (if m = k then reload st b else buffer_of (st\<lparr>disk := dk\<rparr>) m)"
  by (auto simp: buffer_of_def reload_def block_bytes_def fun_eq_iff)

lemma buffer_of_disk_same [simp]: "buffer_of (st\<lparr>disk := disk st\<rparr>) m = buffer_of st m"
  by (simp add: buffer_of_def cong: if_cong)

lemma reload_backed: "(\<And>p. BLOCK_SIZE \<le> p \<Longrightarrow> b p = slack st p) \<Longrightarrow> reload st b = b"
  by (auto simp: reload_def fun_eq_iff)

lemma file_matches_store_size:
  "file_matches fname fext (store_size m (fsize_at j) v) i = file_matches fname fext m i"
proof -
  have "load (store_size m (fsize_at j) v) (fname_at i) n = load m (fname_at i) n" if "n \<le> 8" for n
    using that by (intro load_store_size_other) (cases "i \<le> j"; simp add: fname_at_def fsize_at_def)
  moreover
  have "load (store_size m (fsize_at j) v) (fext_at i) n = load m (fext_at i) n" if "n \<le> 3" for n
    using that by (intro load_store_size_other) (cases "i \<le> j"; simp add: fext_at_def fsize_at_def)
  ultimately show ?thesis by (simp add: file_matches_def strneq_def)
qed

lemma file_index_store_size:
  "file_index (store_size m (fsize_at j) v) fname fext = file_index m fname fext"
proof -
  have "file_matches fname fext (store_size m (fsize_at j) v) = file_matches fname fext m"
    by (rule ext) (rule file_matches_store_size)
  moreover have "load_int (store_size m (fsize_at j) v) 0 = load_int m 0"
    by (simp add: load_int_def load_store_size_other fsize_at_def)
  ultimately show ?thesis by (simp add: file_index_def)
qed

lemma after_write:
  fixes D :: mem
  assumes fl: "file_at st dir fname fext s j a f"
    and d: "block_ok st d"
    and dist: "s \<noteq> 0" "a \<noteq> s" "d \<noteq> 0" "d \<noteq> s" "d \<noteq> a"
    and v: "v < 2 ^ 64"
    and D: "\<forall>p. BLOCK_SIZE \<le> p \<longrightarrow> D p = slack st p"
    and st': "st' = st\<lparr>disk := (disk st)
         (nat s := block_bytes (store_size (buffer_of st (nat s)) (fsize_at j) v),
          nat a := block_bytes (buffer_of st (nat a)),
          nat d := block_bytes D)\<rparr>"
  shows "file_at st' dir fname fext s j a v"
    and "buffer_of st' (nat a) = buffer_of st (nat a)"
    and "buffer_of st' (nat d) = D"
    and "block_ok st' = block_ok st"
    and "buffer_of st' 0 = buffer_of st 0"
proof -
  note fa = fl [unfolded file_at_def]
  from fa d have nn: "0 \<le> s" "0 \<le> a" "0 \<le> d" by (simp_all add: block_ok_def)
  with dist fa have ne: "nat s \<noteq> 0" "nat a \<noteq> 0" "nat d \<noteq> 0" "nat a \<noteq> nat s" "nat d \<noteq> nat s"
    "nat d \<noteq> nat a" by auto
  let ?S = "store_size (buffer_of st (nat s)) (fsize_at j) v"
  show ok: "block_ok st' = block_ok st" by (simp add: st' fun_eq_iff)
  show b0: "buffer_of st' 0 = buffer_of st 0"
    using ne by (simp add: st' buffer_of_disk_upd2)
  have "reload st ?S = ?S"
  proof (rule reload_backed)
    fix p :: nat assume "BLOCK_SIZE \<le> p"
    moreover from fa have "fsize_at j + 8 \<le> BLOCK_SIZE" by (simp add: fsize_at_def)
    ultimately show "?S p = slack st p"
      by (simp add: store_size_def store_apply buffer_of_def)
  qed
  then have bs: "buffer_of st' (nat s) = ?S"
    using ne by (simp add: st' buffer_of_disk_upd2)
  show ba: "buffer_of st' (nat a) = buffer_of st (nat a)"
    using ne by (simp add: st' buffer_of_disk_upd2)
  from D have "reload st D = D" by (intro reload_backed) simp
  then show bd: "buffer_of st' (nat d) = D"
    by (simp add: st' buffer_of_disk_upd2)
  have ix: "load_long ?S (nIndexBlock_at j) = load_long (buffer_of st (nat s)) (nIndexBlock_at j)"
    by (simp add: load_long_def load_store_size_other nIndexBlock_at_def fsize_at_def)
  have n0: "load_int ?S 0 = load_int (buffer_of st (nat s)) 0"
    by (simp add: load_int_def load_store_size_other fsize_at_def)
  have fs: "load_size ?S (fsize_at j) = v"
    using v by (rule load_size_store_size)
  show "file_at st' dir fname fext s j a v"
    using fa by (simp add: file_at_def ok b0 bs file_index_store_size ix n0 fs)
qed

lemma st_file_eq:
  "st_file = st_dir\<lparr>bitmap := (bitmap st_dir)(0 := 240),
                    disk := (disk st_dir)(1 := block_bytes dir_hi, 2 := block_bytes inode_hi,
                                          3 := block_bytes (calloc_block st_dir))\<rparr>"
  by (simp add: st_file_def mknod_hi)

lemma block_ok_file [simp]: "block_ok st_file n = (0 \<le> n \<and> n < 10240)"
  by (auto simp: block_ok_def st_file_eq)

lemma buffer_of_file:
  "buffer_of st_file 0 = reload st_init root_alpha"
  "buffer_of st_file (Suc 0) = reload st_dir dir_hi"
  "buffer_of st_file 2 = reload st_dir inode_hi"
  "buffer_of st_file 3 = reload st_dir (calloc_block st_dir)"
  by (simp_all add: st_file_eq st_dir_eq buffer_of_disk_upd2)

lemma file_at_hi: "file_at st_file ''alpha'' ''hi'' ''txt'' 1 0 2 0"
proof -
  have n0: "load_int (reload st_init root_alpha) 0 = 1"
    by (simp add: eval_mem root_alpha_def)
  have dn: "dir_index_n (reload st_init root_alpha) ''alpha'' = 0"
    unfolding dir_index_n_def n0 by (rule scan_index_hit) (simp_all add: eval_mem root_alpha_def)
  have di: "dir_index (reload st_init root_alpha) ''alpha'' = 0"
    unfolding dir_index_def n0 by (rule scan_index_hit) (simp_all add: eval_mem root_alpha_def)
  have s: "load_long (reload st_init root_alpha) (nStartBlock_at 0) = 1"
    by (simp add: eval_mem root_alpha_def)
  have n1: "load_int (reload st_dir dir_hi) 0 = 1"
    by (simp add: eval_mem dir_hi_def)
  have fi: "file_index (reload st_dir dir_hi) ''hi'' ''txt'' = 0"
    unfolding file_index_def n1 by (rule scan_index_hit) (simp_all add: eval_mem dir_hi_def)
  have a: "load_long (reload st_dir dir_hi) (nIndexBlock_at 0) = 2"
    by (simp add: eval_mem dir_hi_def)
  have f: "load_size (reload st_dir dir_hi) (fsize_at 0) = 0"
    by (simp add: eval_mem dir_hi_def)
  show ?thesis
    by (simp add: file_at_def buffer_of_file dn di s n1 fi a f)
qed

lemma locate_hi: "locate (buffer_of st_file 2) off 0 =
   (if off \<le> 512 then (3, 0, off, off) else (0, 0, 0, off - 512))"
proof -
  have e0: "load_long (reload st_dir inode_hi) (entries_at 0) = 3"
    by (simp add: eval_mem inode_hi_def)
  have e1: "load_long (reload st_dir inode_hi) (entries_at (Suc 0)) = 0"
    by (simp add: eval_mem inode_hi_def)
  show ?thesis
    apply (subst locate.simps)
    apply (simp add: buffer_of_file e0)
    apply (subst locate.simps)
    apply (simp add: e1)
    done
qed

lemma write_then_read:
  assumes parse: "sscanf_path path = (3, dir, fname, fext)"
    and fl: "file_at st dir fname fext s j a f"
    and start: "locate (buffer_of st (nat a)) offset 0 = (d, idx, pos, off1)"
    and d: "block_ok st d" "d \<noteq> 0" "d \<noteq> s" "d \<noteq> a"
    and sa: "s \<noteq> 0" "a \<noteq> s"
    and n: "0 < n" "pos + n \<le> BLOCK_SIZE"
    and off: "offset \<le> f" "f < 2 ^ 63"
  shows "fst (cs1550_write path b n offset st) = Ret (int n)"
    and "cs1550_read path buf n offset (snd (cs1550_write path b n offset st)) =
       (case read_loop (snd (cs1550_write path b n offset st)) (buffer_of st (nat a)) n 0
               (Some (\<lambda>p. if pos \<le> p \<and> p < pos + n then b (p - pos)
                          else buffer_of st (nat d) p)) idx pos buf of
          None \<Rightarrow> (Crash, buf)
        | Some (k, buf1) \<Rightarrow> (Ret (int n), buf1))"
proof -
  let ?D = "\<lambda>p. if pos \<le> p \<and> p < pos + n then b (p - pos) else buffer_of st (nat d) p"
  let ?v = "max f (n + offset)"
  let ?st = "st\<lparr>disk := (disk st)
         (nat s := block_bytes (store_size (buffer_of st (nat s)) (fsize_at j) ?v),
          nat a := block_bytes (buffer_of st (nat a)),
          nat d := block_bytes ?D)\<rparr>"
  have w: "cs1550_write path b n offset st = (Ret (int n), ?st)"
    using parse fl start d(1) n off by (rule write_in_block)
  then show "fst (cs1550_write path b n offset st) = Ret (int n)" by simp
  from n off have v: "?v < 2 ^ 64" by simp
  have bk: "\<forall>p. BLOCK_SIZE \<le> p \<longrightarrow> ?D p = slack st p"
    using n by (simp add: buffer_of_def)
  note aw = after_write [OF fl d(1) sa d(2,3,4) v bk refl]
  from locate_found [OF start d(2)] have loc: "pos = off1" "off1 \<le> offset" by simp_all
  have cl: "clamp_size n off1 ?v = n"
    using loc n off by (simp add: clamp_size_def)
  have gd: "get_block ?st d = Some ?D"
    using d(1) aw(3,4) by (simp add: get_block_eq)
  have ti: "to_int n = int n" using n by (simp add: to_int_small)
  have l2: "locate (buffer_of ?st (nat a)) offset 0 = (d, idx, pos, off1)"
    using start aw(2) by simp
  show "cs1550_read path buf n offset (snd (cs1550_write path b n offset st)) =
       (case read_loop (snd (cs1550_write path b n offset st)) (buffer_of st (nat a)) n 0
               (Some ?D) idx pos buf of
          None \<Rightarrow> (Crash, buf)
        | Some (k, buf1) \<Rightarrow> (Ret (int n), buf1))"
    unfolding w snd_conv
    by (subst read_resolved [OF parse aw(1) n(1)])
      (simp add: start l2 aw(2) cl gd ti split: option.splits prod.splits)
qed

text \<open>
  Claim C1, as amended. Let the lookups of the handlers end at a file entry whose directory
  block \<open>s\<close>, index block \<open>a\<close> and located start block \<open>d\<close> are three different readable blocks
  other than block 0 (what \<^verbatim>\<open>mknod\<close> lays out). For a buffer \<open>b\<close> of \<open>n > 0\<close> bytes none of
  which is zero, and an offset within the file size whose located start position \<open>pos\<close> has
  \<open>pos + n \<le> 512\<close>, \<^verbatim>\<open>write\<close> returns \<open>n\<close>, and the \<^verbatim>\<open>read\<close> of the same region that comes next
  returns \<open>n\<close> and stores exactly the \<open>n\<close> bytes of \<open>b\<close> in the caller's buffer, leaving the rest
  of it alone.
\<close>

theorem write_read_round_trip:
  assumes parse: "sscanf_path path = (3, dir, fname, fext)"
    and fl: "file_at st dir fname fext s j a f"
    and start: "locate (buffer_of st (nat a)) offset 0 = (d, idx, pos, off1)"
    and d: "block_ok st d" "d \<noteq> 0" "d \<noteq> s" "d \<noteq> a"
    and sa: "s \<noteq> 0" "a \<noteq> s"
    and n: "0 < n" "pos + n \<le> BLOCK_SIZE"
    and off: "offset \<le> f" "f < 2 ^ 63"
    and nz: "\<forall>i<n. b i \<noteq> 0"
  shows "fst (cs1550_write path b n offset st) = Ret (int n) \<and>
         cs1550_read path buf n offset (snd (cs1550_write path b n offset st))
           = (Ret (int n), \<lambda>p. if p < n then b p else buf p)"
proof -
  let ?D = "\<lambda>p. if pos \<le> p \<and> p < pos + n then b (p - pos) else buffer_of st (nat d) p"
  note wr = write_then_read [OF parse fl start d sa n off]
  have "\<forall>k < n - 0. ?D (pos + k) \<noteq> 0" using nz by simp
  from read_loop_copy [OF this, where st = "snd (cs1550_write path b n offset st)"
      and inode = "buffer_of st (nat a)" and idx = idx and buf = buf] n
  have rl: "read_loop (snd (cs1550_write path b n offset st)) (buffer_of st (nat a)) n 0
      (Some ?D) idx pos buf = Some (n, \<lambda>p. if p < n then b p else buf p)"
    by (simp cong: if_cong)
  show ?thesis by (simp add: wr rl)
qed

text \<open>
  The session \<^verbatim>\<open>mkdir /alpha\<close>, \<^verbatim>\<open>mknod /alpha/hi.txt\<close> on the fresh image, then
  \<^verbatim>\<open>write("Hello", 5, 0)\<close> and \<^verbatim>\<open>read(5, 0)\<close>, as an instance of the theorem.
\<close>

theorem write_read_round_trip_witness:
  "fst (cs1550_mkdir ''/alpha'' st_init) = Ret 0 \<and>
   fst (cs1550_mknod ''/alpha/hi.txt'' st_dir) = Ret 0 \<and>
   map hello [0..<5] = [72, 101, 108, 108, 111] \<and>
   fst (cs1550_write ''/alpha/hi.txt'' hello 5 0 st_file) = Ret 5 \<and>
   cs1550_read ''/alpha/hi.txt'' (\<lambda>p. 88) 5 0 (snd (cs1550_write ''/alpha/hi.txt'' hello 5 0 st_file))
     = (Ret 5, \<lambda>p. if p < 5 then hello p else 88)"
proof -
  have nz: "\<forall>i<5. hello i \<noteq> 0"
  proof (intro allI impI)
    fix i :: nat assume "i < 5"
    then have "i = 0 \<or> i = 1 \<or> i = 2 \<or> i = 3 \<or> i = 4" by auto
    then show "hello i \<noteq> 0" by (auto simp: hello_def store_apply cstr_def)
  qed
  have loc: "locate (buffer_of st_file (nat 2)) 0 0 = (3, 0, 0, 0)"
    by (simp add: locate_hi)
  from write_read_round_trip [OF sscanf_hi file_at_hi loc _ _ _ _ _ _ _ _ _ _ nz, of "\<lambda>p. 88"]
  have "fst (cs1550_write ''/alpha/hi.txt'' hello 5 0 st_file) = Ret 5 \<and>
    cs1550_read ''/alpha/hi.txt'' (\<lambda>p. 88) 5 0 (snd (cs1550_write ''/alpha/hi.txt'' hello 5 0 st_file))
     = (Ret 5, \<lambda>p. if p < 5 then hello p else 88)"
    by simp
  moreover have "map hello [0..<5] = [72, 101, 108, 108, 111]"
    by (simp add: hello_def store_apply cstr_def upt_conv_Cons)
  ultimately show ?thesis by (simp add: mkdir_alpha mknod_hi)
qed

lemma read_loop_stops:
  "fb pos = 0 \<Longrightarrow> read_loop st inode sz i (Some fb) idx pos buf = Some (i, buf)"
  by (subst read_loop.simps) simp

lemma read_loop_step:
  "i < sz \<Longrightarrow> fb pos \<noteq> 0 \<Longrightarrow> pos < BLOCK_SIZE \<Longrightarrow>
   read_loop st inode sz i (Some fb) idx pos buf
     = read_loop st inode sz (Suc i) (Some fb) idx (Suc pos) (buf(i := fb pos))"
proof -
  assume a: "i < sz" "fb pos \<noteq> 0" "pos < BLOCK_SIZE"
  then have m: "Suc pos mod 513 = Suc pos" by simp
  show ?thesis
    by (subst read_loop.simps) (simp add: a m Let_def del: mod_Suc)
qed

text \<open>
  Claim C1 as stated fails on a buffer with a zero byte: the copy loop of \<^verbatim>\<open>read\<close> stops at
  the first zero byte of the block. Writing the three bytes 65, 0, 66 at offset 0 of the new
  file returns 3; reading three bytes back returns 3 as well, but stores only the first byte:
  the caller's buffer (filled with 88 before) holds 65, 88, 88.
\<close>

theorem round_trip_zero_byte_counterexample:
  "fst (cs1550_write ''/alpha/hi.txt'' a_nul_b 3 0 st_file) = Ret 3 \<and>
   cs1550_read ''/alpha/hi.txt'' (\<lambda>p. 88) 3 0
       (snd (cs1550_write ''/alpha/hi.txt'' a_nul_b 3 0 st_file))
     = (Ret 3, (\<lambda>p. 88)(0 := 65)) \<and>
   map a_nul_b [0..<3] = [65, 0, 66] \<and>
   map ((\<lambda>p. 88)(0 := 65)) [0..<3] = [65, 88, 88 :: byte]"
proof -
  have loc: "locate (buffer_of st_file (nat 2)) 0 0 = (3, 0, 0, 0)"
    by (simp add: locate_hi)
  let ?D = "\<lambda>p. if 0 \<le> p \<and> p < 0 + 3 then a_nul_b (p - 0) else buffer_of st_file (nat 3) p"
  let ?st = "snd (cs1550_write ''/alpha/hi.txt'' a_nul_b 3 0 st_file)"
  have w: "fst (cs1550_write ''/alpha/hi.txt'' a_nul_b 3 0 st_file) = Ret (int 3)"
    by (rule write_then_read(1) [OF sscanf_hi file_at_hi loc]) simp_all
  have r: "cs1550_read ''/alpha/hi.txt'' (\<lambda>p. 88) 3 0 ?st =
       (case read_loop ?st (buffer_of st_file (nat 2)) 3 0 (Some ?D) 0 0 (\<lambda>p. 88) of
          None \<Rightarrow> (Crash, \<lambda>p. 88)
        | Some (k, buf1) \<Rightarrow> (Ret (int 3), buf1))"
    by (rule write_then_read(2) [OF sscanf_hi file_at_hi loc]) simp_all
  have a0: "a_nul_b 0 = 65" "a_nul_b (Suc 0) = 0"
    by (simp_all add: a_nul_b_def store_apply)
  have d0: "?D 0 = 65" and d1: "?D (Suc 0) = 0"
    by (simp_all add: a0)
  have "read_loop ?st (buffer_of st_file (nat 2)) 3 0 (Some ?D) 0 0 (\<lambda>p. 88)
      = read_loop ?st (buffer_of st_file (nat 2)) 3 (Suc 0) (Some ?D) 0 (Suc 0)
          ((\<lambda>p. 88)(0 := ?D 0))"
    by (rule read_loop_step) (simp_all add: a0)
  also have "\<dots> = Some (Suc 0, (\<lambda>p. 88)(0 := ?D 0))"
    by (rule read_loop_stops) (rule d1)
  finally have rl: "read_loop ?st (buffer_of st_file (nat 2)) 3 0 (Some ?D) 0 0 (\<lambda>p. 88)
      = Some (Suc 0, (\<lambda>p. 88)(0 := 65))"
    by (simp only: d0)
  have "map a_nul_b [0..<3] = [65, 0, 66]"
    by (simp add: a_nul_b_def store_apply upt_conv_Cons)
  moreover have "map ((\<lambda>p. 88)(0 := 65)) [0..<3] = [65, 88, 88 :: byte]"
    by (simp add: upt_conv_Cons)
  moreover from r rl
  have "cs1550_read ''/alpha/hi.txt'' (\<lambda>p. 88) 3 0 ?st = (Ret 3, (\<lambda>p. 88)(0 := 65))"
    by simp
  ultimately show ?thesis using w by simp
qed

section \<open>What write returns\<close>

lemma block_ok_write_disk_block:
  "block_ok st n \<Longrightarrow> block_ok (snd (write_disk_block m b st)) n"
  by (auto simp: write_disk_block_def block_ok_def)

lemma block_ok_find_free_block [simp]:
  "block_ok (snd (find_free_block st)) n = block_ok st n"
  by (simp add: find_free_block_def initBitmap_def Let_def block_ok_def split: option.splits prod.splits)

lemma block_ok_set_bit [simp]:
  "block_ok (snd (set_bit_bm m st)) n = block_ok st n"
  by (simp add: set_bit_bm_def Let_def block_ok_def)

lemma load_long_store_long_other:
  "k \<noteq> i \<Longrightarrow> load_long (store_long m (entries_at i) v) (entries_at k) = load_long m (entries_at k)"
  by (cases "k < i") (simp_all add: load_long_def load_store_long_other entries_at_def)

lemma write_loop_no_crash:
  assumes "w_file_block w \<noteq> None"
    and "\<forall>k. w_cur_block_index w < k \<and> BLOCK_SIZE * k < bound \<longrightarrow>
           load_long (w_inode w) (entries_at k) \<noteq> 0 \<longrightarrow>
           block_ok (w_fs w) (load_long (w_inode w) (entries_at k))"
    and "BLOCK_SIZE * w_cur_block_index w + w_cur_pos w + (sz - i) \<le> bound"
  shows "\<exists>w'. write_loop buf sz i w = Some w' \<and> w_file_block w' \<noteq> None"
  using assms
proof (induction "sz - i" arbitrary: i w)
  case 0
  then show ?case by (subst write_loop.simps) simp
next
  case (Suc n)
  from Suc.hyps(2) have lt: "i < sz" and n: "n = sz - Suc i" by simp_all
  from Suc.prems(1) obtain fb where fb: "w_file_block w = Some fb" by auto
  let ?pos = "w_cur_pos w"
  let ?idx = "Suc (w_cur_block_index w)"
  let ?fb1 = "fb(?pos := buf i)"
  let ?st1 = "snd (write_disk_block (w_cur_block_addr w) ?fb1 (w_fs w))"
  let ?e = "load_long (w_inode w) (entries_at ?idx)"
  show ?case
  proof (cases "?pos \<noteq> 0 \<and> ?pos mod BLOCK_SIZE = 0")
    case False
    let ?w1 = "w\<lparr>w_file_block := Some ?fb1, w_cur_pos := Suc ?pos\<rparr>"
    from False have c: "\<not> (0 < ?pos \<and> ?pos mod BLOCK_SIZE = 0)" by simp
    have step: "write_loop buf sz i w = write_loop buf sz (Suc i) ?w1"
      by (subst write_loop.simps) (simp add: lt fb c Let_def)
    have "\<exists>w'. write_loop buf sz (Suc i) ?w1 = Some w' \<and> w_file_block w' \<noteq> None"
      using Suc.prems lt by (intro Suc.hyps(1) [OF n]) simp_all
    with step show ?thesis by simp
  next
    case True
    then have big: "BLOCK_SIZE \<le> ?pos" by (auto elim!: dvdE simp: mod_eq_0_iff_dvd)
    from True have c: "0 < ?pos \<and> ?pos mod BLOCK_SIZE = 0" by simp
    from big Suc.prems(3) lt have reach: "BLOCK_SIZE * ?idx < bound" by simp
    show ?thesis
    proof (cases "?e \<noteq> 0")
      case e: True
      let ?w1 = "w\<lparr>w_fs := ?st1, w_file_block := get_block ?st1 ?e,
                    w_cur_block_index := ?idx, w_cur_pos := 0\<rparr>"
      have step: "write_loop buf sz i w = write_loop buf sz (Suc i) ?w1"
        using e by (subst write_loop.simps) (simp add: lt fb c Let_def case_prod_beta)
      from Suc.prems(2) reach e have "block_ok (w_fs w) ?e" by simp
      then have "block_ok ?st1 ?e" by (rule block_ok_write_disk_block)
      then have g: "get_block ?st1 ?e \<noteq> None" by (simp add: get_block_eq)
      have "\<exists>w'. write_loop buf sz (Suc i) ?w1 = Some w' \<and> w_file_block w' \<noteq> None"
      proof (intro Suc.hyps(1) [OF n])
        show "w_file_block ?w1 \<noteq> None" using g by simp
        show "\<forall>k. w_cur_block_index ?w1 < k \<and> BLOCK_SIZE * k < bound \<longrightarrow>
           load_long (w_inode ?w1) (entries_at k) \<noteq> 0 \<longrightarrow>
           block_ok (w_fs ?w1) (load_long (w_inode ?w1) (entries_at k))"
          using Suc.prems(2) by (auto intro: block_ok_write_disk_block)
        show "BLOCK_SIZE * w_cur_block_index ?w1 + w_cur_pos ?w1 + (sz - Suc i) \<le> bound"
          using Suc.prems(3) big lt by simp
      qed
      with step show ?thesis by simp
    next
      case e: False
      let ?st2 = "snd (find_free_block ?st1)"
      let ?fr = "fst (find_free_block ?st1)"
      let ?st3 = "snd (set_bit_bm ?fr ?st2)"
      let ?w1 = "w\<lparr>w_fs := ?st3, w_inode := store_long (w_inode w) (entries_at ?idx) ?fr,
                    w_file_block := Some (calloc_block ?st3), w_cur_block_addr := ?fr,
                    w_cur_block_index := ?idx, w_cur_pos := 0\<rparr>"
      have step: "write_loop buf sz i w = write_loop buf sz (Suc i) ?w1"
        using e by (subst write_loop.simps) (simp add: lt fb c Let_def case_prod_beta)
      have "\<exists>w'. write_loop buf sz (Suc i) ?w1 = Some w' \<and> w_file_block w' \<noteq> None"
      proof (intro Suc.hyps(1) [OF n])
        show "w_file_block ?w1 \<noteq> None" by simp
        show "\<forall>k. w_cur_block_index ?w1 < k \<and> BLOCK_SIZE * k < bound \<longrightarrow>
           load_long (w_inode ?w1) (entries_at k) \<noteq> 0 \<longrightarrow>
           block_ok (w_fs ?w1) (load_long (w_inode ?w1) (entries_at k))"
          using Suc.prems(2)
          by (auto simp: load_long_store_long_other intro: block_ok_write_disk_block)
        show "BLOCK_SIZE * w_cur_block_index ?w1 + w_cur_pos ?w1 + (sz - Suc i) \<le> bound"
          using Suc.prems(3) big lt by simp
      qed
      with step show ?thesis by simp
    qed
  qed
qed

lemma write_rets:
  assumes "sz \<noteq> 0" "sz < 2 ^ 31"
  shows "fst (cs1550_write path buf sz offset st) \<in>
           {Ret (- ENOENT), Ret (- ENAMETOOLONG), Ret (- EFBIG), Crash, Ret (int sz)}"
    and "fst (cs1550_write path buf sz offset st) \<noteq> Ret (int sz) \<Longrightarrow>
           snd (cs1550_write path buf sz offset st) = st \<or>
           fst (cs1550_write path buf sz offset st) = Crash"
  using assms
  by (auto simp: cs1550_write_def Let_def to_int_small case_prod_beta
      split: if_splits option.splits prod.splits)

lemma write_efbig:
  assumes parse: "sscanf_path path = (3, dir, fname, fext)"
    and fl: "file_at st dir fname fext s j a f"
    and sz: "sz \<noteq> 0" and off: "f < offset"
  shows "cs1550_write path buf sz offset st = (Ret (- EFBIG), st)"
proof -
  note fa = fl [unfolded file_at_def]
  from fa have len: "\<not> (8 < length dir \<or> 8 < length fname \<or> 3 < length fext)" by auto
  from fa have g0: "get_block st 0 = Some (buffer_of st 0)" by (simp add: get_block_eq)
  from fa have s: "load_long (buffer_of st 0) (nStartBlock_at (dir_index_n (buffer_of st 0) dir)) = s"
    by simp
  from fa have gs: "get_block st s = Some (buffer_of st (nat s))" by (simp add: get_block_eq)
  from fa have j: "file_index (buffer_of st (nat s)) fname fext = j"
    "int j < load_int (buffer_of st (nat s)) 0" by simp_all
  from fa have f: "load_size (buffer_of st (nat s)) (fsize_at j) = f" by simp
  have "signed 64 f \<le> int f" by (simp add: signed_def)
  with off have gt: "signed 64 f < int offset" by simp
  show ?thesis
    using sz by (simp add: cs1550_write_def parse len g0 s gs j f gt Let_def)
qed

lemma write_returns_size:
  assumes parse: "sscanf_path path = (3, dir, fname, fext)"
    and fl: "file_at st dir fname fext s j a f"
    and sz: "0 < sz" "sz < 2 ^ 31"
    and off: "offset \<le> f" "f < 2 ^ 63"
    and fits: "offset + sz \<le> BLOCK_SIZE * MAX_ENTRIES_IN_INDEX_BLOCK"
    and entries: "\<forall>k<MAX_ENTRIES_IN_INDEX_BLOCK.
        load_long (buffer_of st (nat a)) (entries_at k) \<noteq> 0 \<longrightarrow>
        block_ok st (load_long (buffer_of st (nat a)) (entries_at k))"
  shows "fst (cs1550_write path buf sz offset st) = Ret (int sz)"
proof -
  note fa = fl [unfolded file_at_def]
  from fa have len: "\<not> (8 < length dir \<or> 8 < length fname \<or> 3 < length fext)" by auto
  from fa have g0: "get_block st 0 = Some (buffer_of st 0)" by (simp add: get_block_eq)
  from fa have s: "load_long (buffer_of st 0) (nStartBlock_at (dir_index_n (buffer_of st 0) dir)) = s"
    by simp
  from fa have gs: "get_block st s = Some (buffer_of st (nat s))" by (simp add: get_block_eq)
  from fa have j: "file_index (buffer_of st (nat s)) fname fext = j"
    "int j < load_int (buffer_of st (nat s)) 0" by simp_all
  from fa have a: "load_long (buffer_of st (nat s)) (nIndexBlock_at j) = a" "a \<noteq> 0" by simp_all
  from fa have f: "load_size (buffer_of st (nat s)) (fsize_at j) = f" by simp
  from fa have ga: "get_block st a = Some (buffer_of st (nat a))" by (simp add: get_block_eq)
  from off have le: "\<not> int offset > signed 64 f" by (simp add: signed_64_small)
  from sz have ti: "to_int sz = int sz" by (simp add: to_int_small)
  let ?inode = "buffer_of st (nat a)"
  obtain d idx pos off1 where loc: "locate ?inode offset 0 = (d, idx, pos, off1)"
    by (cases "locate ?inode offset 0") auto
  let ?w0 = "\<lparr>w_fs = st, w_inode = ?inode, w_file_block = get_block st d,
       w_cur_block_addr = d, w_cur_block_index = idx, w_cur_pos = pos\<rparr>"
  have start: "w_file_block ?w0 \<noteq> None \<and> BLOCK_SIZE * idx + pos + sz \<le> 32768"
  proof (cases "d = 0")
    case True
    from locate_not_found [OF loc True] fa fits True show ?thesis
      by (simp add: get_block_eq)
  next
    case False
    from locate_found [OF loc False] have lf: "pos = off1" "d = load_long ?inode (entries_at idx)"
      "idx < MAX_ENTRIES_IN_INDEX_BLOCK" "offset = off1 + BLOCK_SIZE * (idx - 0)" by simp_all
    with entries False have "block_ok st d" by auto
    with lf fits show ?thesis by (simp add: get_block_eq)
  qed
  have "\<exists>w'. write_loop buf sz 0 ?w0 = Some w' \<and> w_file_block w' \<noteq> None"
  proof (rule write_loop_no_crash [where bound = 32768])
    show "w_file_block ?w0 \<noteq> None" using start by simp
    show "\<forall>k. w_cur_block_index ?w0 < k \<and> BLOCK_SIZE * k < 32768 \<longrightarrow>
           load_long (w_inode ?w0) (entries_at k) \<noteq> 0 \<longrightarrow>
           block_ok (w_fs ?w0) (load_long (w_inode ?w0) (entries_at k))"
      using entries by simp
    show "BLOCK_SIZE * w_cur_block_index ?w0 + w_cur_pos ?w0 + (sz - 0) \<le> 32768"
      using start by simp
  qed
  then obtain w' fb where w': "write_loop buf sz 0 ?w0 = Some w'" "w_file_block w' = Some fb"
    by auto
  show ?thesis
    using sz(1)
    by (simp add: cs1550_write_def parse len g0 s gs j a f ga le ti loc w' Let_def case_prod_beta)
qed

lemma load_long_zero:
  assumes "\<And>p. off \<le> p \<Longrightarrow> p < off + 8 \<Longrightarrow> m p = 0"
  shows "load_long m off = 0"
proof -
  have "load m off 8 = replicate 8 0"
    using assms by (intro nth_equalityI) (simp_all add: load_def)
  moreover have "le_nat (replicate n 0) = 0" for n
    by (induction n) (simp_all add: le_nat_def)
  ultimately show ?thesis by (simp add: load_long_def signed_def)
qed

lemma st_hello:
  shows file_at_hello: "file_at st_hello ''alpha'' ''hi'' ''txt'' 1 0 2 5"
    and inode_hello: "buffer_of st_hello 2 = buffer_of st_file 2"
    and data_hello: "buffer_of st_hello 3 = (\<lambda>p. if p < 5 then hello p else buffer_of st_file 3 p)"
    and block_ok_hello: "block_ok st_hello = block_ok st_file"
    and root_hello: "buffer_of st_hello 0 = buffer_of st_file 0"
proof -
  have loc: "locate (buffer_of st_file (nat 2)) 0 0 = (3, 0, 0, 0)"
    by (simp add: locate_hi)
  let ?D = "\<lambda>p. if 0 \<le> p \<and> p < 0 + 5 then hello (p - 0) else buffer_of st_file (nat 3) p"
  have w: "cs1550_write ''/alpha/hi.txt'' hello 5 0 st_file =
     (Ret (int 5),
      st_file\<lparr>disk := (disk st_file)
         (nat 1 := block_bytes (store_size (buffer_of st_file (nat 1)) (fsize_at 0) (max 0 (5 + 0))),
          nat 2 := block_bytes (buffer_of st_file (nat 2)),
          nat 3 := block_bytes ?D)\<rparr>)"
    by (rule write_in_block [OF sscanf_hi file_at_hi loc]) simp_all
  have bk: "\<forall>p. BLOCK_SIZE \<le> p \<longrightarrow> ?D p = slack st_file p"
    by (simp add: buffer_of_def)
  have e: "st_hello = st_file\<lparr>disk := (disk st_file)
         (nat 1 := block_bytes (store_size (buffer_of st_file (nat 1)) (fsize_at 0) (max 0 (5 + 0))),
          nat 2 := block_bytes (buffer_of st_file (nat 2)),
          nat 3 := block_bytes ?D)\<rparr>"
    by (simp only: st_hello_def w snd_conv)
  have ok3: "block_ok st_file 3" by simp
  note aw = after_write [OF file_at_hi ok3 _ _ _ _ _ _ bk e]
  from aw(1) show "file_at st_hello ''alpha'' ''hi'' ''txt'' 1 0 2 5" by simp
  from aw(2) show "buffer_of st_hello 2 = buffer_of st_file 2" by simp
  from aw(3) show "buffer_of st_hello 3 = (\<lambda>p. if p < 5 then hello p else buffer_of st_file 3 p)"
    by (simp cong: if_cong)
  from aw(4) show "block_ok st_hello = block_ok st_file" by simp
  from aw(5) show "buffer_of st_hello 0 = buffer_of st_file 0" by simp
qed

lemma entries_hello:
  "\<forall>k<MAX_ENTRIES_IN_INDEX_BLOCK.
      load_long (buffer_of st_hello (nat 2)) (entries_at k) \<noteq> 0 \<longrightarrow>
      block_ok st_hello (load_long (buffer_of st_hello (nat 2)) (entries_at k))"
proof (intro allI impI)
  fix k :: nat
  assume k: "k < MAX_ENTRIES_IN_INDEX_BLOCK"
    and nz: "load_long (buffer_of st_hello (nat 2)) (entries_at k) \<noteq> 0"
  have "load_long (buffer_of st_file 2) (entries_at k) = 0" if "k \<noteq> 0"
  proof (rule load_long_zero)
    fix p assume "entries_at k \<le> p" "p < entries_at k + 8"
    with that k show "buffer_of st_file 2 p = 0"
      by (simp add: buffer_of_file reload_def inode_hi_def calloc_block_def store_long_def
          store_apply entries_at_def)
  qed
  with nz have "k = 0" by (auto simp: inode_hello)
  moreover have "load_long (buffer_of st_file 2) (entries_at 0) = 3"
    unfolding buffer_of_file by (simp add: eval_mem inode_hi_def)
  ultimately show "block_ok st_hello (load_long (buffer_of st_hello (nat 2)) (entries_at k))"
    by (simp add: inode_hello block_ok_hello)
qed

text \<open>
  Claim C5. For sizes an \<^verbatim>\<open>int\<close> can hold, \<^verbatim>\<open>write\<close> returns \<open>- EPERM\<close> exactly when the size is
  0. For a file the lookups resolve and a non-zero size, an offset greater than the file size
  gives \<open>- EFBIG\<close> (and leaves the state alone). An offset up to and including the file size
  is accepted and \<^verbatim>\<open>write\<close> returns the size, provided the write ends within what one index
  block addresses (64 blocks of 512 bytes) and every non-zero entry of the index block names
  a readable block.
\<close>

theorem write_error_cases:
  "(sz < 2 ^ 31 \<longrightarrow> (fst (cs1550_write path buf sz offset st) = Ret (- EPERM)) = (sz = 0)) \<and>
   (sscanf_path path = (3, dir, fname, fext) \<and> file_at st dir fname fext s j a f \<and>
    sz \<noteq> 0 \<and> f < offset \<longrightarrow>
      cs1550_write path buf sz offset st = (Ret (- EFBIG), st)) \<and>
   (sscanf_path path = (3, dir, fname, fext) \<and> file_at st dir fname fext s j a f \<and>
    0 < sz \<and> sz < 2 ^ 31 \<and> offset \<le> f \<and> f < 2 ^ 63 \<and>
    offset + sz \<le> BLOCK_SIZE * MAX_ENTRIES_IN_INDEX_BLOCK \<and>
    (\<forall>k<MAX_ENTRIES_IN_INDEX_BLOCK.
        load_long (buffer_of st (nat a)) (entries_at k) \<noteq> 0 \<longrightarrow>
        block_ok st (load_long (buffer_of st (nat a)) (entries_at k))) \<longrightarrow>
      fst (cs1550_write path buf sz offset st) = Ret (int sz))"
proof (intro conjI impI)
  assume sz: "sz < 2 ^ 31"
  show "(fst (cs1550_write path buf sz offset st) = Ret (- EPERM)) = (sz = 0)"
  proof (cases "sz = 0")
    case True
    then show ?thesis by (simp add: cs1550_write_def)
  next
    case False
    with write_rets(1) [OF False sz, of path buf offset st] show ?thesis by auto
  qed
next
  assume "sscanf_path path = (3, dir, fname, fext) \<and> file_at st dir fname fext s j a f \<and>
    sz \<noteq> 0 \<and> f < offset"
  then show "cs1550_write path buf sz offset st = (Ret (- EFBIG), st)"
    by (intro write_efbig [where s = s and j = j and a = a and f = f]) blast+
next
  assume "sscanf_path path = (3, dir, fname, fext) \<and> file_at st dir fname fext s j a f \<and>
    0 < sz \<and> sz < 2 ^ 31 \<and> offset \<le> f \<and> f < 2 ^ 63 \<and>
    offset + sz \<le> BLOCK_SIZE * MAX_ENTRIES_IN_INDEX_BLOCK \<and>
    (\<forall>k<MAX_ENTRIES_IN_INDEX_BLOCK.
        load_long (buffer_of st (nat a)) (entries_at k) \<noteq> 0 \<longrightarrow>
        block_ok st (load_long (buffer_of st (nat a)) (entries_at k)))"
  then show "fst (cs1550_write path buf sz offset st) = Ret (int sz)"
    by (intro write_returns_size [where a = a and f = f]) blast+
qed

text \<open>
  On the file that holds \<^verbatim>\<open>Hello\<close> (size 5): size 0 gives \<open>- EPERM\<close>, offset 6 gives \<open>- EFBIG\<close>,
  and three bytes appended at offset 5 are accepted.
\<close>

theorem write_error_cases_witness:
  "fst (cs1550_write ''/alpha/hi.txt'' hello 0 5 st_hello) = Ret (- EPERM) \<and>
   fst (cs1550_write ''/alpha/hi.txt'' hello 3 5 st_hello) \<noteq> Ret (- EPERM) \<and>
   file_at st_hello ''alpha'' ''hi'' ''txt'' 1 0 2 5 \<and>
   cs1550_write ''/alpha/hi.txt'' hello 3 6 st_hello = (Ret (- EFBIG), st_hello) \<and>
   fst (cs1550_write ''/alpha/hi.txt'' hello 3 5 st_hello) = Ret 3"
proof -
  note t0 = write_error_cases [of 0 "''/alpha/hi.txt''" hello 5 st_hello]
  note t6 = write_error_cases [of 3 "''/alpha/hi.txt''" hello 6 st_hello
      "''alpha''" "''hi''" "''txt''" 1 0 2 5]
  note t5 = write_error_cases [of 3 "''/alpha/hi.txt''" hello 5 st_hello
      "''alpha''" "''hi''" "''txt''" 1 0 2 5]
  from t0 have a: "fst (cs1550_write ''/alpha/hi.txt'' hello 0 5 st_hello) = Ret (- EPERM)"
    by simp
  from t5 have b: "fst (cs1550_write ''/alpha/hi.txt'' hello 3 5 st_hello) \<noteq> Ret (- EPERM)"
    by simp
  from t6 sscanf_hi file_at_hello
  have c: "cs1550_write ''/alpha/hi.txt'' hello 3 6 st_hello = (Ret (- EFBIG), st_hello)"
    by simp
  from t5 sscanf_hi file_at_hello entries_hello
  have d: "fst (cs1550_write ''/alpha/hi.txt'' hello 3 5 st_hello) = Ret 3"
    by simp
  from a b c d file_at_hello show ?thesis by simp
qed

text \<open>
  Claim C10. Whenever \<^verbatim>\<open>write\<close> (of a size an \<^verbatim>\<open>int\<close> can hold) returns \<open>- EFBIG\<close>, the state after
  it is the state before it: no block of the image, not the length of the image and not the
  bitmap has changed. The size field updated in the buffer of the directory block is dropped
  with that buffer.
\<close>

theorem write_efbig_unchanged:
  "sz < 2 ^ 31 \<Longrightarrow> fst (cs1550_write path buf sz offset st) = Ret (- EFBIG) \<Longrightarrow>
   snd (cs1550_write path buf sz offset st) = st"
proof (cases "sz = 0")
  case True
  then show ?thesis by (simp add: cs1550_write_def)
next
  case False
  assume "sz < 2 ^ 31" and r: "fst (cs1550_write path buf sz offset st) = Ret (- EFBIG)"
  from write_rets(2) [OF False this(1), of path buf offset st] r show ?thesis by auto
qed

theorem write_efbig_unchanged_witness:
  "(3::nat) < 2 ^ 31 \<and>
   fst (cs1550_write ''/alpha/hi.txt'' hello 3 6 st_hello) = Ret (- EFBIG) \<and>
   snd (cs1550_write ''/alpha/hi.txt'' hello 3 6 st_hello) = st_hello"
proof -
  have r: "fst (cs1550_write ''/alpha/hi.txt'' hello 3 6 st_hello) = Ret (- EFBIG)"
    using write_efbig [OF sscanf_hi file_at_hello, of 3 6 hello] by simp
  have "(3::nat) < 2 ^ 31" by simp
  from write_efbig_unchanged [OF this r] r show ?thesis by simp
qed

section \<open>What the allocator returns\<close>

lemma fst_find_free_block:
  "fst (find_free_block st) =
     (case scan_bytes (bitmap (snd (find_free_block st))) 0 of
        None \<Rightarrow> - ENOSPC
      | Some (q, r) \<Rightarrow> 8 * int q + int r)"
  by (simp add: find_free_block_def Let_def split: option.splits prod.splits)

lemma find_free_block_again:
  "find_free_block (snd (find_free_block st)) = find_free_block st"
proof (rule prod_eqI)
  show s: "snd (find_free_block (snd (find_free_block st))) = snd (find_free_block st)"
    by (rule find_free_block_initialised) (rule find_free_block_marks)
  show "fst (find_free_block (snd (find_free_block st))) = fst (find_free_block st)"
    by (subst (1 2) fst_find_free_block) (simp only: s)
qed

text \<open>
  Claim C8. \<^verbatim>\<open>find_free_block\<close> returns the index of the first clear bit, byte 0 first and
  the bit of value 128 first within a byte, or \<open>- ENOSPC\<close> when no bit is clear; the bits are
  those of the bitmap it leaves, which is the bitmap it found once the file system is
  mounted (the last bit of the map is set), since it then changes nothing; and a second
  call returns the same block number.
\<close>

theorem find_free_block_first_clear:
  "(is_bit_set (bitmap st (BIT_MAP_SIZE - 1)) 7 \<longrightarrow> snd (find_free_block st) = st) \<and>
   ((\<exists>n<12288. bit_clear (bitmap (snd (find_free_block st))) n) \<longrightarrow>
      (\<exists>n<12288. fst (find_free_block st) = int n \<and>
         bit_clear (bitmap (snd (find_free_block st))) n \<and>
         (\<forall>m<n. \<not> bit_clear (bitmap (snd (find_free_block st))) m))) \<and>
   ((\<forall>n<12288. \<not> bit_clear (bitmap (snd (find_free_block st))) n) \<longrightarrow>
      fst (find_free_block st) = - ENOSPC) \<and>
   find_free_block (snd (find_free_block st)) = find_free_block st"
proof (intro conjI impI)
  assume "is_bit_set (bitmap st (BIT_MAP_SIZE - 1)) 7"
  then show "snd (find_free_block st) = st" by (rule find_free_block_initialised)
next
  let ?bm = "bitmap (snd (find_free_block st))"
  assume ex: "\<exists>n<12288. bit_clear ?bm n"
  show "\<exists>n<12288. fst (find_free_block st) = int n \<and> bit_clear ?bm n \<and> (\<forall>m<n. \<not> bit_clear ?bm m)"
  proof (cases "scan_bytes ?bm 0")
    case None
    with ex scan_bytes_full show ?thesis by blast
  next
    case (Some a)
    obtain q r where a: "a = (q, r)" by (cases a)
    note f = scan_bytes_first [OF Some [unfolded a]]
    have "fst (find_free_block st) = int (8 * q + r)"
      by (subst fst_find_free_block) (simp add: Some a)
    with f show ?thesis by blast
  qed
next
  let ?bm = "bitmap (snd (find_free_block st))"
  assume full: "\<forall>n<12288. \<not> bit_clear ?bm n"
  show "fst (find_free_block st) = - ENOSPC"
  proof (cases "scan_bytes ?bm 0")
    case None
    then show ?thesis by (subst fst_find_free_block) simp
  next
    case (Some a)
    obtain q r where a: "a = (q, r)" by (cases a)
    from scan_bytes_first(1,2) [OF Some [unfolded a]] full show ?thesis by blast
  qed
next
  show "find_free_block (snd (find_free_block st)) = find_free_block st"
    by (rule find_free_block_again)
qed

lemma all_bits_set_255: "k < 8 \<Longrightarrow> is_bit_set 255 k"
proof -
  assume "k < 8"
  then have "k = 0 \<or> k = 1 \<or> k = 2 \<or> k = 3 \<or> k = 4 \<or> k = 5 \<or> k = 6 \<or> k = 7" by auto
  then show ?thesis by (auto simp: is_bit_set_def mask_tab_def)
qed

theorem find_free_block_first_clear_witness:
  "is_bit_set (bitmap st_init (BIT_MAP_SIZE - 1)) 7 \<and>
   snd (find_free_block st_init) = st_init \<and>
   bit_clear (bitmap st_init) 1 \<and> \<not> bit_clear (bitmap st_init) 0 \<and>
   fst (find_free_block st_init) = 1 \<and>
   find_free_block (snd (find_free_block st_init)) = find_free_block st_init \<and>
   fst (find_free_block (st_init\<lparr>bitmap := (\<lambda>i. 255)\<rparr>)) = - ENOSPC"
proof -
  let ?full = "st_init\<lparr>bitmap := (\<lambda>i. 255)\<rparr>"
  note t = find_free_block_first_clear [of st_init]
  note u = find_free_block_first_clear [of ?full]
  have i: "is_bit_set (bitmap st_init (BIT_MAP_SIZE - 1)) 7"
    by (simp add: is_bit_set_def mask_tab_def)
  with t have s: "snd (find_free_block st_init) = st_init" by blast
  have c1: "bit_clear (bitmap st_init) 1" and c0: "\<not> bit_clear (bitmap st_init) 0"
    by (simp_all add: bit_clear_def is_bit_set_def mask_tab_def)
  from c1 have "\<exists>n<12288. bit_clear (bitmap st_init) n" by (intro exI [of _ 1]) simp
  with t s obtain n where n: "fst (find_free_block st_init) = int n" "bit_clear (bitmap st_init) n"
    "\<forall>m<n. \<not> bit_clear (bitmap st_init) m" by auto
  from n(3) c1 have "\<not> 1 < n" by blast
  moreover from n(2) c0 have "n \<noteq> 0" by (cases "n = 0") simp_all
  ultimately have "n = 1" by simp
  with n have r: "fst (find_free_block st_init) = 1" by simp
  have "is_bit_set (bitmap ?full (BIT_MAP_SIZE - 1)) 7"
    by (simp add: all_bits_set_255)
  with u have sf: "snd (find_free_block ?full) = ?full" by blast
  have "\<forall>n<12288. \<not> bit_clear (bitmap (snd (find_free_block ?full))) n"
    by (simp add: sf bit_clear_def all_bits_set_255)
  with u have "fst (find_free_block ?full) = - ENOSPC" by blast
  with i s c1 c0 r t show ?thesis by simp
qed


section \<open>Block bounds and the read of nothing\<close>

text \<open>
  Claim C7. The guards of \<^verbatim>\<open>set_bit\<close>, \<^verbatim>\<open>write_disk_block\<close> and \<^verbatim>\<open>get_block\<close> are
  \<^verbatim>\<open>block_num > DISK_BLOCKS\<close>, so block number 10240 passes them: on the mounted fresh image
  \<^verbatim>\<open>set_bit(10240)\<close> returns 0 and sets a bit of byte 1280, and \<^verbatim>\<open>write_disk_block(10240, _)\<close>
  returns 0 and makes the image one block longer, after which \<^verbatim>\<open>get_block(10240)\<close> succeeds.
\<close>

theorem set_bit_accepts_10240:
  "fst (set_bit_bm 10240 st_init) = 0 \<and> bitmap st_init 1280 = 0 \<and>
   bitmap (snd (set_bit_bm 10240 st_init)) 1280 = 128 \<and>
   fst (write_disk_block 10240 block st_init) = 0 \<and>
   nblocks st_init = 10240 \<and>
   nblocks (snd (write_disk_block 10240 block st_init)) = 10241 \<and>
   get_block (snd (write_disk_block 10240 block st_init)) 10240 \<noteq> None"
  by (simp add: set_bit_bm_def mask_tab_def write_disk_block_def get_block_def)

text \<open>
  Claim C9. For every path, buffer, offset and state, a read of size 0 returns 0 and leaves
  the buffer as it is: the test \<^verbatim>\<open>size == 0\<close> comes before the path is parsed.
\<close>

theorem read_zero_size: "cs1550_read path buf 0 offset st = (Ret 0, buf)"
  by (simp add: cs1550_read_def)


section \<open>What read returns\<close>

lemma read_loop_run:
  "\<forall>k < n. fb (pos + k) \<noteq> 0 \<Longrightarrow> pos + n \<le> BLOCK_SIZE \<Longrightarrow> i + n \<le> sz \<Longrightarrow>
   read_loop st inode sz i (Some fb) idx pos buf =
     read_loop st inode sz (i + n) (Some fb) idx (pos + n)
       (\<lambda>p. if i \<le> p \<and> p < i + n then fb (pos + (p - i)) else buf p)"
proof (induction n arbitrary: i pos buf)
  case 0
  have "(\<lambda>p. if i \<le> p \<and> p < i + 0 then fb (pos + (p - i)) else buf p) = buf"
    by (auto simp: fun_eq_iff)
  then show ?case by simp
next
  case (Suc n)
  from Suc.prems have nz: "fb pos \<noteq> 0" by (metis add.right_neutral zero_less_Suc)
  have step: "read_loop st inode sz i (Some fb) idx pos buf
      = read_loop st inode sz (Suc i) (Some fb) idx (Suc pos) (buf(i := fb pos))"
    using Suc.prems nz by (intro read_loop_step) simp_all
  have "\<forall>k < n. fb (Suc pos + k) \<noteq> 0"
  proof (intro allI impI)
    fix k assume "k < n"
    then have "Suc k < Suc n" by simp
    with Suc.prems(1) have "fb (pos + Suc k) \<noteq> 0" by blast
    then show "fb (Suc pos + k) \<noteq> 0" by simp
  qed
  then have ih: "read_loop st inode sz (Suc i) (Some fb) idx (Suc pos) (buf(i := fb pos))
     = read_loop st inode sz (Suc i + n) (Some fb) idx (Suc pos + n)
         (\<lambda>p. if Suc i \<le> p \<and> p < Suc i + n then fb (Suc pos + (p - Suc i))
              else (buf(i := fb pos)) p)"
    using Suc.prems by (intro Suc.IH) simp_all
  have fn: "(\<lambda>p. if Suc i \<le> p \<and> p < Suc i + n then fb (Suc pos + (p - Suc i))
              else (buf(i := fb pos)) p)
     = (\<lambda>p. if i \<le> p \<and> p < i + Suc n then fb (pos + (p - i)) else buf p)"
    by (auto simp: fun_eq_iff Suc_diff_Suc)
  show ?case by (simp only: step ih fn) simp
qed

lemma read_loop_last_slot:
  assumes "i < sz" "fb BLOCK_SIZE \<noteq> 0" "load_long inode (entries_at (Suc idx)) = 0"
  shows "read_loop st inode sz i (Some fb) idx BLOCK_SIZE buf
           = Some (Suc i, buf(i := fb BLOCK_SIZE))"
  by (subst read_loop.simps) (simp add: assms Let_def)

lemma clamp_size_min:
  assumes "off1 \<le> f" "f < 2 ^ 63" "sz < 2 ^ 31"
  shows "clamp_size sz off1 f = min sz (f - off1)"
proof -
  from assms have "f + 2 ^ 64 - off1 = (f - off1) + 1 * 2 ^ 64" by simp
  then have "(f + 2 ^ 64 - off1) mod 2 ^ 64 = (f - off1) mod 2 ^ 64"
    by (simp only: mod_mult_self1)
  also from assms have "\<dots> = f - off1" by simp
  finally have w: "(f + 2 ^ 64 - off1) mod 2 ^ 64 = f - off1" .
  from assms have "(sz + off1) mod 2 ^ 64 = sz + off1" by simp
  with w assms show ?thesis by (auto simp only: clamp_size_def min_def split: if_splits)
qed

lemma locate_near: "offset \<le> BLOCK_SIZE \<Longrightarrow> snd (snd (snd (locate inode offset 0))) = offset"
  by (subst locate.simps) simp

text \<open>
  Claim C3, as amended. For every file the lookups resolve, every read of a positive size at an
  offset of at most 512 and at most \<open>fsize\<close> returns the clamped size
  \<open>min size (fsize - offset)\<close> (or dereferences \<^verbatim>\<open>NULL\<close>), whatever the copy loop delivered: the
  handler ends with \<^verbatim>\<open>return size\<close>, and no count of the bytes copied is kept for the result.
\<close>

theorem read_returns_clamped_size:
  assumes parse: "sscanf_path path = (3, dir, fname, fext)"
    and fl: "file_at st dir fname fext s j a f"
    and sz: "0 < sz" "sz < 2 ^ 31"
    and off: "offset \<le> BLOCK_SIZE" "offset \<le> f" "f < 2 ^ 63"
  shows "fst (cs1550_read path buf sz offset st) = Crash \<or>
         fst (cs1550_read path buf sz offset st) = Ret (int (min sz (f - offset)))"
proof -
  obtain d idx pos off1 where loc: "locate (buffer_of st (nat a)) offset 0 = (d, idx, pos, off1)"
    by (cases "locate (buffer_of st (nat a)) offset 0") auto
  with locate_near [OF off(1), of "buffer_of st (nat a)"] have o: "off1 = offset" by simp
  have cl: "clamp_size sz offset f = min sz (f - offset)"
    using off sz by (intro clamp_size_min) simp_all
  have "min sz (f - offset) < 2 ^ 31" using sz by simp
  then have ti: "to_int (min sz (f - offset)) = int (min sz (f - offset))"
    by (rule to_int_small)
  show ?thesis
    by (subst (1 2) read_resolved [OF parse fl sz(1)])
      (simp add: loc o cl ti split: option.splits prod.splits)
qed


lemma st_short:
  shows file_at_short: "file_at st_short ''alpha'' ''hi'' ''txt'' 1 0 2 1000"
    and inode_short: "buffer_of st_short 2 = buffer_of st_file 2"
    and data_short: "buffer_of st_short 3 = (\<lambda>p. if p < BLOCK_SIZE then 65 else slack st_file p)"
    and block_ok_short: "block_ok st_short = block_ok st_file"
proof -
  have ok3: "block_ok st_file 3" by simp
  have bk: "\<forall>p. BLOCK_SIZE \<le> p \<longrightarrow>
      (\<lambda>p. if p < BLOCK_SIZE then 65 else slack st_file p) p = slack st_file p"
    by simp
  note aw = after_write [OF file_at_hi ok3 _ _ _ _ _ _ bk st_short_def]
  from aw(1) show "file_at st_short ''alpha'' ''hi'' ''txt'' 1 0 2 1000" by simp
  from aw(2) show "buffer_of st_short 2 = buffer_of st_file 2" by simp
  from aw(3) show "buffer_of st_short 3 = (\<lambda>p. if p < BLOCK_SIZE then 65 else slack st_file p)"
    by simp
  from aw(4) show "block_ok st_short = block_ok st_file" by simp
qed

lemma entry1_hi: "load_long (buffer_of st_file 2) (entries_at (Suc 0)) = 0"
  unfolding buffer_of_file by (simp add: eval_mem inode_hi_def)

lemma slack_file [simp]: "slack st_file p = 170"
  by (simp add: st_file_eq)

lemma read_short:
  shows "read_loop st_short (buffer_of st_short 2) 600 0 (get_block st_short 3) 0 0 (\<lambda>p. 88)
     = Some (513, \<lambda>p. if p < 512 then 65 else if p = 512 then 170 else 88)"
    and "cs1550_read ''/alpha/hi.txt'' (\<lambda>p. 88) 600 0 st_short
     = (Ret 600, \<lambda>p. if p < 512 then 65 else if p = 512 then 170 else 88)"
proof -
  let ?D = "\<lambda>p. if p < BLOCK_SIZE then 65 else slack st_file p"
  let ?inode = "buffer_of st_file 2"
  have g: "get_block st_short 3 = Some ?D"
    by (simp add: get_block_eq block_ok_short data_short)
  have "read_loop st_short ?inode 600 0 (Some ?D) 0 0 (\<lambda>p. 88)
      = read_loop st_short ?inode 600 (0 + 512) (Some ?D) 0 (0 + 512)
          (\<lambda>p. if 0 \<le> p \<and> p < 0 + 512 then ?D (0 + (p - 0)) else 88)"
    by (rule read_loop_run) simp_all
  also have "\<dots> = read_loop st_short ?inode 600 512 (Some ?D) 0 BLOCK_SIZE
          (\<lambda>p. if p < 512 then 65 else 88)"
    by (simp cong: if_cong)
  also have "\<dots> = Some (Suc 512, (\<lambda>p. if p < 512 then 65 else 88)(512 := ?D BLOCK_SIZE))"
    by (rule read_loop_last_slot) (simp_all add: entry1_hi)
  also have "(\<lambda>p :: nat. if p < 512 then 65 else 88)(512 := ?D BLOCK_SIZE)
      = (\<lambda>p. if p < 512 then 65 else if p = 512 then 170 else (88 :: byte))"
    by (auto simp: fun_eq_iff)
  finally have rl: "read_loop st_short ?inode 600 0 (Some ?D) 0 0 (\<lambda>p. 88)
      = Some (513, \<lambda>p. if p < 512 then 65 else if p = 512 then 170 else 88)"
    by simp
  then show "read_loop st_short (buffer_of st_short 2) 600 0 (get_block st_short 3) 0 0 (\<lambda>p. 88)
     = Some (513, \<lambda>p. if p < 512 then 65 else if p = 512 then 170 else 88)"
    by (simp only: inode_short g)
  have loc: "locate (buffer_of st_file 2) 0 0 = (3, 0, 0, 0)"
    by (simp add: locate_hi)
  have cl: "clamp_size 600 0 1000 = 600" by (simp add: clamp_size_def)
  have ti: "to_int 600 = 600" by (simp add: to_int_def signed_def)
  show "cs1550_read ''/alpha/hi.txt'' (\<lambda>p. 88) 600 0 st_short
     = (Ret 600, \<lambda>p. if p < 512 then 65 else if p = 512 then 170 else 88)"
    by (subst read_resolved [OF sscanf_hi file_at_short]) (simp_all add: loc cl ti g inode_short rl)
qed


text \<open>
  The image \<open>st_short\<close>: the directory entry of \<^verbatim>\<open>hi.txt\<close> says 1000 bytes, the index block lists
  the one data block 3, full of the letter \<^verbatim>\<open>A\<close>, and slot 1 is zero. A read of 600 bytes at
  offset 0 returns 600, the clamped size.
\<close>

theorem read_returns_clamped_size_witness:
  "sscanf_path ''/alpha/hi.txt'' = (3, ''alpha'', ''hi'', ''txt'')
   \<and> file_at st_short ''alpha'' ''hi'' ''txt'' 1 0 2 1000
   \<and> fst (cs1550_read ''/alpha/hi.txt'' (\<lambda>p. 88) 600 0 st_short) = Ret (int (min 600 (1000 - 0)))"
  using read_returns_clamped_size [OF sscanf_hi file_at_short, of 600 0 "\<lambda>p. 88"]
  by (simp add: sscanf_hi file_at_short read_short(2))

text \<open>
  Claim C3, as stated, fails on \<open>st_short\<close>: the read of 600 bytes at offset 0 meets the zero
  slot \<^verbatim>\<open>entries[1]\<close> after 513 bytes (the 512 of the block and the byte behind it), stops there,
  and returns 600, not 513.
\<close>

theorem short_read_returns_size_counterexample:
  "load_size (buffer_of st_short 1) (fsize_at 0) = 1000
   \<and> load_long (buffer_of st_short 2) (entries_at 0) = 3
   \<and> load_long (buffer_of st_short 2) (entries_at 1) = 0
   \<and> read_loop st_short (buffer_of st_short 2) 600 0 (get_block st_short 3) 0 0 (\<lambda>p. 88)
       = Some (513, \<lambda>p. if p < 512 then 65 else if p = 512 then 170 else 88)
   \<and> cs1550_read ''/alpha/hi.txt'' (\<lambda>p. 88) 600 0 st_short
       = (Ret 600, \<lambda>p. if p < 512 then 65 else if p = 512 then 170 else 88)"
proof -
  have f: "load_size (buffer_of st_short 1) (fsize_at 0) = 1000"
    using file_at_short by (simp add: file_at_def)
  have e0: "load_long (buffer_of st_file 2) (entries_at 0) = 3"
    unfolding buffer_of_file by (simp add: eval_mem inode_hi_def)
  show ?thesis
    using f e0 entry1_hi read_short by (simp add: inode_short)
qed

lemma read_past_end:
  assumes parse: "sscanf_path path = (3, dir, fname, fext)"
    and fl: "file_at st dir fname fext s j a f"
    and sz: "0 < sz" "sz < 2 ^ 31"
    and off: "offset \<le> BLOCK_SIZE" "f < offset"
  shows "fst (cs1550_read path buf sz offset st) = Crash \<or>
         fst (cs1550_read path buf sz offset st) = Ret (int f - int offset)"
proof -
  obtain d idx pos off1 where loc: "locate (buffer_of st (nat a)) offset 0 = (d, idx, pos, off1)"
    by (cases "locate (buffer_of st (nat a)) offset 0") auto
  with locate_near [OF off(1), of "buffer_of st (nat a)"] have o: "off1 = offset" by simp
  from sz off have "(sz + offset) mod 2 ^ 64 = sz + offset" by simp
  with off have cl: "clamp_size sz offset f = (f + 2 ^ 64 - offset) mod 2 ^ 64"
    by (simp only: clamp_size_def) simp
  from off have c2: "(f + 2 ^ 64 - offset) mod 2 ^ 64 = 2 ^ 64 - (offset - f)"
    by simp
  define k where "k = offset - f"
  from off have k: "0 < k" "k \<le> 512" by (simp_all add: k_def)
  have "(2 ^ 64 - k) mod 2 ^ 32 = 2 ^ 32 - k"
  proof -
    from k have "(2 :: nat) ^ 64 - k = (2 ^ 32 - k) + (2 ^ 32 - 1) * 2 ^ 32" by simp
    then have "(2 ^ 64 - k) mod 2 ^ 32 = (2 ^ 32 - k) mod (2 :: nat) ^ 32"
      by (simp only: mod_mult_self1)
    with k show ?thesis by simp
  qed
  with k have "to_int (2 ^ 64 - k) = - int k"
    by (simp add: to_int_def signed_def)
  with off have ti: "to_int (2 ^ 64 - (offset - f)) = int f - int offset"
    by (simp add: k_def)
  from cl c2 ti have "to_int (clamp_size sz offset f) = int f - int offset"
    by (simp only:)
  then show ?thesis
    by (subst (1 2) read_resolved [OF parse fl sz(1)])
      (simp add: loc o split: option.splits prod.splits)
qed

text \<open>
  Claim C4. On the file of 5 bytes of \<open>st_hello\<close>, a read of 5 bytes at offset 10 delivers
  nothing and returns \<open>-5\<close>: \<^verbatim>\<open>size = file_size - offset\<close> wraps around to \<open>2\<^sup>6\<^sup>4 - 5\<close>, and the
  \<^verbatim>\<open>int\<close> returned keeps its low 32 bits. At offset 5, the size of the file, the read returns 0.
\<close>

theorem read_past_end_negative:
  "file_at st_hello ''alpha'' ''hi'' ''txt'' 1 0 2 5
   \<and> cs1550_read ''/alpha/hi.txt'' (\<lambda>p. 88) 5 10 st_hello = (Ret (- 5), \<lambda>p. 88)
   \<and> cs1550_read ''/alpha/hi.txt'' (\<lambda>p. 88) 5 5 st_hello = (Ret 0, \<lambda>p. 88)"
proof -
  have loc: "locate (buffer_of st_file 2) 10 0 = (3, 0, 10, 10)"
      "locate (buffer_of st_file 2) 5 0 = (3, 0, 5, 5)"
    by (simp_all add: locate_hi)
  have cl: "clamp_size 5 10 5 = 18446744073709551611" "clamp_size 5 5 5 = 0"
    by (simp_all add: clamp_size_def)
  have ti: "to_int 18446744073709551611 = - 5" "to_int 0 = 0"
    by (simp_all add: to_int_def signed_def)
  have g: "get_block st_hello 3 = Some (\<lambda>p. if p < 5 then hello p else buffer_of st_file 3 p)"
    by (simp add: get_block_eq block_ok_hello data_hello)
  have z: "buffer_of st_file 3 10 = 0" "buffer_of st_file 3 5 = 0"
    by (simp_all add: buffer_of_file reload_def calloc_block_def)
  have rl: "read_loop st_hello inode sz 0
       (Some (\<lambda>p. if p < 5 then hello p else buffer_of st_file 3 p)) 0 10 buf = Some (0, buf)"
       "read_loop st_hello inode sz 0
       (Some (\<lambda>p. if p < 5 then hello p else buffer_of st_file 3 p)) 0 5 buf = Some (0, buf)"
    for inode sz buf
    by (rule read_loop_stops, simp add: z)+
  have r1: "cs1550_read ''/alpha/hi.txt'' (\<lambda>p. 88) 5 10 st_hello = (Ret (- 5), \<lambda>p. 88)"
    by (subst read_resolved [OF sscanf_hi file_at_hello]) (simp_all add: loc cl ti g inode_hello rl)
  have r2: "cs1550_read ''/alpha/hi.txt'' (\<lambda>p. 88) 5 5 st_hello = (Ret 0, \<lambda>p. 88)"
    by (subst read_resolved [OF sscanf_hi file_at_hello]) (simp_all add: loc cl ti g inode_hello rl)
  show ?thesis using file_at_hello r1 r2 by simp
qed


section \<open>mknod in a directory that is not there\<close>

lemma sscanf_beta: "sscanf_path ''/beta/x.y'' = (3, ''beta'', ''x'', ''y'')"
  by (simp add: sscanf_path_def isspace_def)

lemma scan_index_miss: "\<not> P 0 \<Longrightarrow> scan_index P 1 0 = 1"
  by (subst scan_index.simps, simp, subst scan_index.simps, simp)

text \<open>
  Claim C6. On \<open>st_dir\<close>, whose root lists the one directory \<^verbatim>\<open>alpha\<close>, \<^verbatim>\<open>mknod("/beta/x.y")\<close>
  returns 0: the search loop ends with \<open>i = nDirectories\<close>, which nothing tests;
  \<^verbatim>\<open>directories[1].nStartBlock\<close> is 0, so block 0, the root, is loaded as the directory, gets
  the file entry, and is written back with its count, now 2.
\<close>

theorem mknod_missing_dir_returns_0:
  "load_int (buffer_of st_dir 0) 0 = 1
   \<and> \<not> streq (cstr ''beta'') (buffer_of st_dir 0) (dname_at 0)
   \<and> dir_index (buffer_of st_dir 0) ''beta'' = 1
   \<and> fst (cs1550_mknod ''/beta/x.y'' st_dir) = Ret 0
   \<and> load_int (buffer_of (snd (cs1550_mknod ''/beta/x.y'' st_dir)) 0) 0 = 2"
proof -
  have g0: "get_block st_dir 0 = Some (buffer_of st_dir 0)"
    by (simp add: get_block_eq)
  have n0: "load_int (buffer_of st_dir 0) 0 = 1"
    by (simp add: eval_mem root_alpha_def)
  have ne: "\<not> streq (cstr ''beta'') (buffer_of st_dir 0) (dname_at 0)"
    by (simp add: eval_mem root_alpha_def)
  have sc: "dir_index (buffer_of st_dir 0) ''beta'' = 1"
    unfolding dir_index_def n0 using ne by (intro scan_index_miss) simp
  have s: "long_to_int (load_long (buffer_of st_dir 0) (nStartBlock_at (Suc 0))) = 0"
    by (simp add: eval_mem root_alpha_def)
  have nm: "\<not> file_matches ''x'' ''y'' (buffer_of st_dir 0) 0"
    by (simp add: eval_mem root_alpha_def)
  have fi: "file_index (buffer_of st_dir 0) ''x'' ''y'' = 1"
    unfolding file_index_def n0 using nm by (intro scan_index_miss) simp
  have sb1: "set_bit_bm 2 st_dir = (0, st_dir\<lparr>bitmap := (bitmap st_dir)(0 := 224)\<rparr>)"
    by (simp add: set_bit_bm_def mask_tab_def)
  have sb2: "set_bit_bm 3 (st_dir\<lparr>bitmap := (bitmap st_dir)(0 := 224)\<rparr>)
               = (0, st_dir\<lparr>bitmap := (bitmap st_dir)(0 := 240)\<rparr>)"
    by (simp add: set_bit_bm_def mask_tab_def)
  let ?d = "store (store (store_size (store_long (buffer_of st_dir 0) 54 2) 46 0)
                33 (strncpy (cstr ''x'') 9)) 42 (strncpy (cstr ''y'') 9)"
  have n2: "load_int ?d 0 = 1"
    by (simp add: eval_mem root_alpha_def)
  have n3: "load_int (reload st_dir (store_int ?d 0 2)) 0 = 2"
    by (simp add: eval_mem)
  have cb [simp]: "calloc_block (st_dir\<lparr>bitmap := b\<rparr>) = calloc_block st_dir" for b
    by (simp add: calloc_block_def cong: if_cong)
  have r: "cs1550_mknod ''/beta/x.y'' st_dir =
     (Ret 0, st_dir\<lparr>bitmap := (bitmap st_dir)(0 := 240),
                    disk := (disk st_dir)(0 := block_bytes (store_int ?d 0 2),
                       2 := block_bytes (store_long (calloc_block st_dir) 0 3),
                       3 := block_bytes (calloc_block st_dir))\<rparr>)"
    apply (simp add: cs1550_mknod_def sscanf_beta g0 n0 sc s fi ffb_dir sb1 ffb_dir2 sb2 Let_def)
    apply (simp add: fname_at_def fext_at_def fsize_at_def nIndexBlock_at_def entries_at_def n2
         write_disk_block_ok)
    done
  have b: "buffer_of (snd (cs1550_mknod ''/beta/x.y'' st_dir)) 0 = reload st_dir (store_int ?d 0 2)"
    by (simp add: r buffer_of_def reload_def block_bytes_def fun_eq_iff)
  show ?thesis
    using n0 ne sc by (simp add: b n3) (simp add: r)
qed

section \<open>A write at a block boundary\<close>

text \<open>
  An offset that is a positive multiple of 512 is located at position 512 of the block
  before the one it begins: the loop goes on only while \<^verbatim>\<open>offset > BLOCK_SIZE\<close>.
\<close>

lemma locate_at_multiple:
  "0 < off \<Longrightarrow> off mod BLOCK_SIZE = 0 \<Longrightarrow> locate inode off i = (d, idx, pos, off1) \<Longrightarrow>
   d \<noteq> 0 \<Longrightarrow> pos = BLOCK_SIZE \<and> i \<le> idx \<and> off = BLOCK_SIZE * (idx - i + 1)"
proof (induction inode off i rule: locate.induct)
  case (1 inode off i)
  note eq = locate.simps [of inode off i]
  show ?case
  proof (cases "load_long inode (entries_at i) \<noteq> 0 \<and> i < MAX_ENTRIES_IN_INDEX_BLOCK")
    case False
    with eq "1.prems" show ?thesis by auto
  next
    case True
    show ?thesis
    proof (cases "off \<le> BLOCK_SIZE")
      case le: True
      with "1.prems"(1,2) have "off = BLOCK_SIZE" by (auto elim!: dvdE simp: mod_eq_0_iff_dvd)
      with True eq "1.prems" show ?thesis by auto
    next
      case gt: False
      with True eq "1.prems" have l: "locate inode (off - BLOCK_SIZE) (Suc i) = (d, idx, pos, off1)"
        by simp
      from gt "1.prems"(2) have m: "0 < off - BLOCK_SIZE" "(off - BLOCK_SIZE) mod BLOCK_SIZE = 0"
        by (simp_all add: mod_eq_0_iff_dvd)
      from "1.IH" [OF True gt m l "1.prems"(4)] gt show ?thesis by auto
    qed
  qed
qed

lemma write_resolved:
  assumes parse: "sscanf_path path = (3, dir, fname, fext)"
    and fl: "file_at st dir fname fext s j a f"
    and n: "0 < n" "n < 2 ^ 31"
    and off: "offset \<le> f" "f < 2 ^ 63"
  shows "cs1550_write path b n offset st =
     (case locate (buffer_of st (nat a)) offset 0 of
        (d, idx, pos, off1) \<Rightarrow>
          (case write_loop b n 0
                  \<lparr>w_fs = st, w_inode = buffer_of st (nat a), w_file_block = get_block st d,
                   w_cur_block_addr = d, w_cur_block_index = idx, w_cur_pos = pos\<rparr> of
             None \<Rightarrow> (Crash, st)
           | Some w \<Rightarrow>
               let (r1, st1) = write_disk_block s
                      (store_size (buffer_of st (nat s)) (fsize_at j) (max f (n + offset))) (w_fs w);
                   (r2, st2) = write_disk_block a (w_inode w) st1
               in (case w_file_block w of
                     None \<Rightarrow> (Crash, st2)
                   | Some fb \<Rightarrow>
                       let (r3, st3) = write_disk_block (w_cur_block_addr w) fb st2
                       in (Ret (int n), st3))))"
proof -
  note fa = fl [unfolded file_at_def]
  from fa have len: "\<not> (8 < length dir \<or> 8 < length fname \<or> 3 < length fext)" by auto
  from fa have g0: "get_block st 0 = Some (buffer_of st 0)" by (simp add: get_block_eq)
  from fa have s: "load_long (buffer_of st 0) (nStartBlock_at (dir_index_n (buffer_of st 0) dir)) = s"
    by simp
  from fa have gs: "get_block st s = Some (buffer_of st (nat s))" by (simp add: get_block_eq)
  from fa have j: "file_index (buffer_of st (nat s)) fname fext = j"
    "int j < load_int (buffer_of st (nat s)) 0" by simp_all
  from fa have a: "load_long (buffer_of st (nat s)) (nIndexBlock_at j) = a" "a \<noteq> 0" by simp_all
  from fa have f: "load_size (buffer_of st (nat s)) (fsize_at j) = f" by simp
  from fa have ga: "get_block st a = Some (buffer_of st (nat a))" by (simp add: get_block_eq)
  from n off have m: "(n + offset) mod 18446744073709551616 = n + offset" by simp
  from off have le: "\<not> int offset > signed 64 f" by (simp add: signed_64_small)
  from n have ti: "to_int n = int n" by (simp add: to_int_small)
  show ?thesis
    using n(1)
    by (simp add: cs1550_write_def parse len g0 s gs j a f ga m le ti Let_def
        cong: prod.case_cong option.case_cong)
qed

lemma st_full:
  shows file_at_full: "file_at st_full ''alpha'' ''hi'' ''txt'' 1 0 2 512"
    and inode_full: "buffer_of st_full 2 = buffer_of st_file 2"
    and data_full: "buffer_of st_full 3 = (\<lambda>p. if p < 512 then 65 else buffer_of st_file 3 p)"
    and block_ok_full: "block_ok st_full = block_ok st_file"
    and bitmap_full: "bitmap st_full = bitmap st_file"
    and nblocks_full: "nblocks st_full = nblocks st_file"
    and slack_full: "slack st_full = slack st_file"
proof -
  have loc: "locate (buffer_of st_file (nat 2)) 0 0 = (3, 0, 0, 0)"
    by (simp add: locate_hi)
  let ?D = "\<lambda>p. if 0 \<le> p \<and> p < 0 + 512 then (\<lambda>p. 65) (p - 0) else buffer_of st_file (nat 3) p"
  have w: "cs1550_write ''/alpha/hi.txt'' (\<lambda>p. 65) 512 0 st_file =
     (Ret (int 512),
      st_file\<lparr>disk := (disk st_file)
         (nat 1 := block_bytes (store_size (buffer_of st_file (nat 1)) (fsize_at 0) (max 0 (512 + 0))),
          nat 2 := block_bytes (buffer_of st_file (nat 2)),
          nat 3 := block_bytes ?D)\<rparr>)"
    by (rule write_in_block [OF sscanf_hi file_at_hi loc]) simp_all
  have bk: "\<forall>p. BLOCK_SIZE \<le> p \<longrightarrow> ?D p = slack st_file p"
    by (simp add: buffer_of_def)
  have e: "st_full = st_file\<lparr>disk := (disk st_file)
         (nat 1 := block_bytes (store_size (buffer_of st_file (nat 1)) (fsize_at 0) (max 0 (512 + 0))),
          nat 2 := block_bytes (buffer_of st_file (nat 2)),
          nat 3 := block_bytes ?D)\<rparr>"
    by (simp only: st_full_def w snd_conv)
  have ok3: "block_ok st_file 3" by simp
  note aw = after_write [OF file_at_hi ok3 _ _ _ _ _ _ bk e]
  from aw(1) show "file_at st_full ''alpha'' ''hi'' ''txt'' 1 0 2 512" by simp
  from aw(2) show "buffer_of st_full 2 = buffer_of st_file 2" by simp
  from aw(3) show "buffer_of st_full 3 = (\<lambda>p. if p < 512 then 65 else buffer_of st_file 3 p)"
    by (simp cong: if_cong)
  from aw(4) show "block_ok st_full = block_ok st_file" by simp
  show "bitmap st_full = bitmap st_file" "nblocks st_full = nblocks st_file"
    "slack st_full = slack st_file" by (simp_all add: e)
qed

lemma bitmap_file: "bitmap st_file i = (if i = 0 then 240 else if i = 1535 then 7 else 0)"
  by (simp add: st_file_eq)

lemma ffb_full:
  "bitmap st = bitmap st_file \<Longrightarrow> find_free_block st = (4, st)"
proof -
  assume b: "bitmap st = bitmap st_file"
  have "find_free_block st = (int 4, st)"
  proof (rule find_free_block_eq)
    fix m :: nat assume "m < 4"
    then have "m = 0 \<or> m = 1 \<or> m = 2 \<or> m = 3" by auto
    then show "\<not> bit_clear (bitmap st) m"
      by (auto simp add: b bitmap_file bit_clear_def is_bit_set_def mask_tab_def)
  qed (simp_all add: b bitmap_file bit_clear_def is_bit_set_def mask_tab_def)
  then show ?thesis by simp
qed


lemma entry0_hi: "load_long (buffer_of st_file 2) (entries_at 0) = 3"
  unfolding buffer_of_file by (simp add: eval_mem inode_hi_def)

lemma write_at_512:
  "cs1550_write ''/alpha/hi.txt'' (\<lambda>p. 66) 1 512 st_full =
    (Ret 1,
     st_full\<lparr>bitmap := (bitmap st_full)(0 := 248),
       disk := (disk st_full)
        (3 := block_bytes (buffer_of st_full 3),
         1 := block_bytes (store_size (buffer_of st_full 1) (fsize_at 0) 513),
         2 := block_bytes (store_long (buffer_of st_full 2) (entries_at 1) 4),
         4 := block_bytes (\<lambda>p. 0))\<rparr>)"
proof -
  let ?D = "buffer_of st_full 3"
  let ?st1 = "st_full\<lparr>disk := (disk st_full)(3 := block_bytes ?D)\<rparr>"
  let ?st3 = "?st1\<lparr>bitmap := (bitmap st_full)(0 := 248)\<rparr>"
  have loc: "locate (buffer_of st_full 2) 512 0 = (3, 0, 512, 512)"
    by (simp add: inode_full locate_hi)
  have g: "get_block st_full 3 = Some ?D"
    by (simp add: get_block_eq block_ok_full)
  have bb: "block_bytes (?D(512 := 66)) = block_bytes ?D"
    by (auto simp: block_bytes_def fun_eq_iff)
  have w1: "write_disk_block 3 (?D(512 := 66)) st_full = (0, ?st1)"
    by (subst write_disk_block_ok) (simp_all add: block_ok_full bb)
  have e1: "load_long (buffer_of st_full 2) (entries_at (Suc 0)) = 0"
    by (simp add: inode_full entry1_hi)
  have ff: "find_free_block ?st1 = (4, ?st1)"
    by (rule ffb_full) (simp add: bitmap_full)
  have sb: "set_bit_bm 4 ?st1 = (0, ?st3)"
    by (simp add: set_bit_bm_def mask_tab_def bitmap_full bitmap_file)
  have cb: "calloc_block ?st3 = (\<lambda>p. if p < BLOCK_SIZE then 0 else 170)"
    by (simp add: calloc_block_def slack_full st_file_eq cong: if_cong)
  let ?w0 = "\<lparr>w_fs = st_full, w_inode = buffer_of st_full 2, w_file_block = Some ?D,
       w_cur_block_addr = 3, w_cur_block_index = 0, w_cur_pos = 512\<rparr>"
  let ?w1 = "\<lparr>w_fs = ?st3, w_inode = store_long (buffer_of st_full 2) (entries_at (Suc 0)) 4,
       w_file_block = Some (\<lambda>p. if p < BLOCK_SIZE then 0 else 170),
       w_cur_block_addr = 4, w_cur_block_index = Suc 0, w_cur_pos = 0\<rparr>"
  have s2: "write_loop (\<lambda>p. 66) (Suc 0) (Suc 0) ?w1 = Some ?w1"
    by (subst write_loop.simps) simp
  have wl: "write_loop (\<lambda>p. 66) (Suc 0) 0 ?w0 = Some ?w1"
    by (subst write_loop.simps) (simp add: Let_def w1 e1 ff sb cb s2)
  have bz: "block_bytes (\<lambda>p. if p < BLOCK_SIZE then 0 else 170) = block_bytes (\<lambda>p. 0)"
    by (auto simp: block_bytes_def fun_eq_iff)
  show ?thesis
    apply (subst write_resolved [OF sscanf_hi file_at_full])
        apply simp_all
    apply (simp add: loc g wl write_disk_block_ok block_ok_full bz)
    done
qed


text \<open>
  Claim C2. On \<open>st_full\<close>, where \<^verbatim>\<open>hi.txt\<close> has 512 bytes in block 3, the only block its index
  block lists, a write at offset 512 starts at position 512 of the block at index 0. The
  write of the one byte \<^verbatim>\<open>B\<close> there returns 1 and makes the file 513 bytes long; block 4 is
  allocated at index 1, and its position 0 is zero: the byte was stored behind the 512 bytes
  of block 3, which is written back as it was.
\<close>

theorem write_at_block_boundary:
  "file_at st_full ''alpha'' ''hi'' ''txt'' 1 0 2 512
   \<and> load_long (buffer_of st_full 2) (entries_at 0) = 3
   \<and> load_long (buffer_of st_full 2) (entries_at 1) = 0
   \<and> locate (buffer_of st_full 2) 512 0 = (3, 0, 512, 512)
   \<and> fst (cs1550_write ''/alpha/hi.txt'' (\<lambda>p. 66) 1 512 st_full) = Ret 1
   \<and> load_size (buffer_of st_full_b 1) (fsize_at 0) = 513
   \<and> load_long (buffer_of st_full_b 2) (entries_at 1) = 4
   \<and> buffer_of st_full_b 4 0 = 0
   \<and> buffer_of st_full_b 3 = buffer_of st_full 3"
proof -
  have loc: "locate (buffer_of st_full 2) 512 0 = (3, 0, 512, 512)"
    by (simp add: inode_full locate_hi)
  have e: "load_long (buffer_of st_full 2) (entries_at 0) = 3"
      "load_long (buffer_of st_full 2) (entries_at 1) = 0"
    by (simp_all add: inode_full entry0_hi entry1_hi)
  note b = st_full_b_def [unfolded write_at_512 snd_conv]
  have f: "load_size (buffer_of st_full_b 1) (fsize_at 0) = 513"
    by (simp add: b eval_mem)
  have n: "load_long (buffer_of st_full_b 2) (entries_at 1) = 4"
    by (simp add: b eval_mem)
  have z: "buffer_of st_full_b 4 0 = 0"
    by (simp add: b buffer_of_def block_bytes_def)
  have d: "buffer_of st_full_b 3 = buffer_of st_full 3"
    by (simp add: b buffer_of_def block_bytes_def fun_eq_iff)
  have r: "fst (cs1550_write ''/alpha/hi.txt'' (\<lambda>p. 66) 1 512 st_full) = Ret 1"
    by (simp only: write_at_512 fst_conv)
  show ?thesis
    using file_at_full loc e r f n z d by simp
qed

end
